theory Spec2Isabelle
  imports Main "HOL-Library.Sublist"
begin

section \<open>The command line of UploadAssist: \<^verbatim>\<open>parse_args\<close> (cli.py)\<close>

text \<open>
  \<^verbatim>\<open>parse_args\<close> builds an \<^verbatim>\<open>argparse.ArgumentParser\<close> with one positional
  (\<^verbatim>\<open>texfile\<close>, \<^verbatim>\<open>nargs="?"\<close>) and seven options, and runs it on
  \<^verbatim>\<open>sys.argv[1:]\<close>. The parser is modelled as CPython's \<^verbatim>\<open>argparse\<close> runs it
  (\<^verbatim>\<open>ArgumentParser._parse_known_args\<close>, Python 3.11): every argument string is
  classified first (\<^verbatim>\<open>_parse_optional\<close>), then positionals and options are consumed
  alternately and each action is called as soon as its strings are known.
  Strings are byte lists; a digit is an ASCII digit.
\<close>

datatype action =
  Help | Texfile | Output | Noflatten | Latexmk | Engine | NoStripComments
  | IncludePackages | Version

text \<open>
  \<^verbatim>\<open>nargs\<close> of each action. The store actions keep the default \<^verbatim>\<open>None\<close> (exactly
  one string); \<^verbatim>\<open>store_true\<close>, \<^verbatim>\<open>help\<close> and \<^verbatim>\<open>version\<close> have \<^verbatim>\<open>nargs=0\<close>;
  \<^verbatim>\<open>AppendList.__init__\<close> passes \<^verbatim>\<open>nargs=0\<close> to \<^verbatim>\<open>argparse.Action\<close>.
\<close>

datatype nargs = Nargs_None | Nargs_Optional | Nargs nat

fun nargs_of :: "action \<Rightarrow> nargs" where
  "nargs_of Help = Nargs 0"
| "nargs_of Texfile = Nargs_Optional"
| "nargs_of Output = Nargs_None"
| "nargs_of Noflatten = Nargs 0"
| "nargs_of Latexmk = Nargs_None"
| "nargs_of Engine = Nargs_None"
| "nargs_of NoStripComments = Nargs 0"
| "nargs_of IncludePackages = Nargs 0"
| "nargs_of Version = Nargs 0"

text \<open>The parser's \<^verbatim>\<open>_option_string_actions\<close>, in the order of registration.\<close>

definition option_string_actions :: "(string \<times> action) list" where
  "option_string_actions =
     [(''-h'', Help), (''--help'', Help),
      (''--output'', Output), (''-o'', Output),
      (''--noflatten'', Noflatten),
      (''--latexmk'', Latexmk),
      (''--engine'', Engine),
      (''--no-strip-comments'', NoStripComments),
      (''--include-packages'', IncludePackages),
      (''--version'', Version)]"

definition engine_choices :: "string list" where
  "engine_choices = [''pdflatex'', ''xelatex'', ''lualatex'']"

text \<open>
  How \<^verbatim>\<open>argparse\<close> leaves: \<^verbatim>\<open>parser.error\<close> prints the usage and raises
  \<^verbatim>\<open>SystemExit(2)\<close>; the help and version actions print and raise \<^verbatim>\<open>SystemExit(0)\<close>.
\<close>

datatype parse_error =
  Ambiguous_option string
  | Ignored_explicit_argument action string
  | Expected_one_argument action
  | Expected_arguments action nat
  | Invalid_choice action string
  | Unrecognized_arguments "string list"

datatype parse_exit = Help_exit | Version_exit | Error_exit parse_error

fun exit_status :: "parse_exit \<Rightarrow> int" where
  "exit_status Help_exit = 0"
| "exit_status Version_exit = 0"
| "exit_status (Error_exit e) = 2"

text \<open>
  An option tuple of \<^verbatim>\<open>_parse_optional\<close>: the action (\<^verbatim>\<open>None\<close> for a string that
  looks like an option and is none of the parser's), the option string, the separator
  and the explicit argument (\<^verbatim>\<open>--output=dir\<close>, \<^verbatim>\<open>-odir\<close>).
\<close>

datatype option_tuple =
  Option_tuple "action option" string "string option" "string option"

text \<open>\<^verbatim>\<open>str.partition('=')\<close>.\<close>

definition partition_eq :: "string \<Rightarrow> string \<times> string \<times> string" where
  "partition_eq s =
     (let r = dropWhile (\<lambda>c. c \<noteq> CHR ''='') s
      in if r = [] then (s, [], [])
         else (takeWhile (\<lambda>c. c \<noteq> CHR ''='') s, ''='', tl r))"

text \<open>
  \<^verbatim>\<open>_get_option_tuples\<close>: the abbreviations of long options (\<^verbatim>\<open>allow_abbrev\<close> is on)
  and a short option glued to its argument.
\<close>

definition get_option_tuples :: "string \<Rightarrow> option_tuple list" where
  "get_option_tuples option_string =
     (if take 1 (drop 1 option_string) = ''-'' then
        (case partition_eq option_string of
           (option_prefix, sep, explicit_arg) \<Rightarrow>
             map (\<lambda>(os, a). Option_tuple (Some a) os
                    (if sep = [] then None else Some sep)
                    (if sep = [] then None else Some explicit_arg))
               (filter (\<lambda>(os, a). prefix option_prefix os) option_string_actions))
      else
        (let option_prefix = option_string;
             short_option_prefix = take 2 option_string;
             short_explicit_arg = drop 2 option_string
         in concat (map (\<lambda>(os, a).
                      if os = short_option_prefix
                      then [Option_tuple (Some a) os (Some []) (Some short_explicit_arg)]
                      else if prefix option_prefix os
                      then [Option_tuple (Some a) os None None]
                      else [])
               option_string_actions)))"

text \<open>
  The parser's \<^verbatim>\<open>_negative_number_matcher\<close>, \<^verbatim>\<open>'^-\d+$|^-\d*\.\d+$'\<close>
  (\<^verbatim>\<open>$\<close> also matches before a final newline).
\<close>

definition is_digit :: "char \<Rightarrow> bool" where
  "is_digit c = (c \<in> set ''0123456789'')"

definition negative_number_like :: "string \<Rightarrow> bool" where
  "negative_number_like s =
     (case (if s \<noteq> [] \<and> last s = CHR 0x0A then butlast s else s) of
        [] \<Rightarrow> False
      | c # r \<Rightarrow>
          c = CHR ''-'' \<and>
          ((r \<noteq> [] \<and> list_all is_digit r) \<or>
           (case dropWhile is_digit r of
              [] \<Rightarrow> False
            | d # f \<Rightarrow> d = CHR ''.'' \<and> f \<noteq> [] \<and> list_all is_digit f)))"

text \<open>
  \<^verbatim>\<open>_parse_optional\<close>: \<^verbatim>\<open>None\<close> for a positional, an option tuple for an option,
  \<^verbatim>\<open>parser.error\<close> for an ambiguous abbreviation. No option of this parser looks like
  a negative number, so a negative number is a positional.
\<close>

definition parse_optional :: "string \<Rightarrow> parse_error + option_tuple option" where
  "parse_optional arg_string =
     (if arg_string = [] then Inr None
      else if take 1 arg_string \<noteq> ''-'' then Inr None
      else case map_of option_string_actions arg_string of
        Some a \<Rightarrow> Inr (Some (Option_tuple (Some a) arg_string None None))
      | None \<Rightarrow>
          if length arg_string = 1 then Inr None
          else case partition_eq arg_string of
            (option_string, sep, explicit_arg) \<Rightarrow>
              (case (if sep \<noteq> [] then map_of option_string_actions option_string else None) of
                 Some a \<Rightarrow> Inr (Some (Option_tuple (Some a) option_string (Some sep) (Some explicit_arg)))
               | None \<Rightarrow>
                   (case get_option_tuples arg_string of
                      [] \<Rightarrow>
                        if negative_number_like arg_string then Inr None
                        else if CHR '' '' \<in> set arg_string then Inr None
                        else Inr (Some (Option_tuple None arg_string None None))
                    | [t] \<Rightarrow> Inr (Some t)
                    | t # t' # ts \<Rightarrow> Inl (Ambiguous_option arg_string))))"

text \<open>
  The pattern \<^verbatim>\<open>arg_strings_pattern\<close>, one symbol per argument string, kept with the
  string: \<^verbatim>\<open>A\<close> an argument, \<^verbatim>\<open>O\<close> an option (with its tuple), and \<^verbatim>\<open>-\<close> the first
  \<^verbatim>\<open>--\<close>, after which every string is an argument.
\<close>

datatype tok = Arg string | Dash | Opt string option_tuple

fun arg_string_of :: "tok \<Rightarrow> string" where
  "arg_string_of (Arg s) = s"
| "arg_string_of Dash = ''--''"
| "arg_string_of (Opt s t) = s"

fun is_Opt :: "tok \<Rightarrow> bool" where
  "is_Opt (Opt s t) = True"
| "is_Opt _ = False"

fun is_Dash :: "tok \<Rightarrow> bool" where
  "is_Dash Dash = True"
| "is_Dash _ = False"

fun classify :: "string list \<Rightarrow> parse_error + tok list" where
  "classify [] = Inr []"
| "classify (s # ss) =
     (if s = ''--'' then Inr (Dash # map Arg ss)
      else case parse_optional s of
        Inl e \<Rightarrow> Inl e
      | Inr None \<Rightarrow> (case classify ss of Inl e \<Rightarrow> Inl e | Inr ts \<Rightarrow> Inr (Arg s # ts))
      | Inr (Some t) \<Rightarrow> (case classify ss of Inl e \<Rightarrow> Inl e | Inr ts \<Rightarrow> Inr (Opt s t # ts)))"

text \<open>
  The \<^verbatim>\<open>Namespace\<close> that \<^verbatim>\<open>parse_args\<close> returns: one attribute per \<^verbatim>\<open>dest\<close>.
  \<^verbatim>\<open>include_packages\<close> holds what \<^verbatim>\<open>AppendList\<close> collects: one entry per call, and
  an entry is the \<^verbatim>\<open>values\<close> that \<^verbatim>\<open>argparse\<close> hands to the action, which for a
  numeric \<^verbatim>\<open>nargs\<close> is a list of strings.
\<close>

record namespace =
  texfile :: "string option"
  output' :: "string option"
  noflatten :: bool
  latexmk :: string
  engine :: string
  no_strip_comments :: bool
  include_packages :: "string list list option"

text \<open>
  The defaults that \<^verbatim>\<open>parse_known_args\<close> sets before parsing: \<^verbatim>\<open>False\<close> for
  \<^verbatim>\<open>store_true\<close>, the \<^verbatim>\<open>default=\<close> of \<^verbatim>\<open>--latexmk\<close> and \<^verbatim>\<open>--engine\<close>, and
  \<^verbatim>\<open>None\<close> for \<^verbatim>\<open>texfile\<close>, \<^verbatim>\<open>--output\<close> and \<^verbatim>\<open>--include-packages\<close>.
\<close>

definition initial_namespace :: namespace where
  "initial_namespace =
     \<lparr>texfile = None, output' = None, noflatten = False, latexmk = ''latexmk'',
      engine = ''pdflatex'', no_strip_comments = False, include_packages = None\<rparr>"

text \<open>
  \<^verbatim>\<open>AppendList.__call__\<close>:
  \<^verbatim>\<open>items = getattr(namespace, self.dest, None); if items is None: items = [];
  items.append(values); setattr(namespace, self.dest, items)\<close>.
\<close>

definition AppendList_call :: "namespace \<Rightarrow> string list \<Rightarrow> namespace" where
  "AppendList_call namespace values =
     (let items = (case include_packages namespace of None \<Rightarrow> [] | Some items \<Rightarrow> items)
      in namespace\<lparr>include_packages := Some (items @ [values])\<rparr>)"

text \<open>
  The state of \<^verbatim>\<open>_parse_known_args\<close>: the namespace, the positionals not yet
  consumed, the strings nothing consumed (\<^verbatim>\<open>extras\<close>), and the history of
  \<^verbatim>\<open>take_action\<close>: every action called so far with the argument strings it got, in
  order (\<^verbatim>\<open>argparse\<close> itself keeps the set \<^verbatim>\<open>seen_actions\<close> of them).
\<close>

record pstate =
  nsp :: namespace
  positionals :: "action list"
  extras :: "string list"
  taken :: "(action \<times> string list) list"

text \<open>
  \<^verbatim>\<open>take_action\<close>: \<^verbatim>\<open>_get_values\<close> turns the argument strings into the value (the
  string itself for \<^verbatim>\<open>nargs=None\<close> and type \<^verbatim>\<open>str\<close>, checked against
  \<^verbatim>\<open>choices\<close>; the default \<^verbatim>\<open>None\<close> for an absent \<^verbatim>\<open>"?"\<close> positional, whose
  first \<^verbatim>\<open>--\<close> is removed; the list of the strings for \<^verbatim>\<open>nargs=0\<close>), then the
  action is called. A store action always gets exactly one string and the positional
  at most one after the removal, so the other branches of the two \<^verbatim>\<open>case\<close>s on the
  strings are never reached.
\<close>

definition take_action :: "action \<Rightarrow> string list \<Rightarrow> pstate \<Rightarrow> parse_exit + pstate" where
  "take_action a argument_strings st =
     (let st' = st\<lparr>taken := taken st @ [(a, argument_strings)]\<rparr>; n = nsp st
      in case a of
        Help \<Rightarrow> Inl Help_exit
      | Version \<Rightarrow> Inl Version_exit
      | Texfile \<Rightarrow>
          Inr (st'\<lparr>nsp := n\<lparr>texfile :=
                 (case remove1 ''--'' argument_strings of [] \<Rightarrow> None | v # vs \<Rightarrow> Some v)\<rparr>\<rparr>)
      | Output \<Rightarrow>
          (case argument_strings of
             [] \<Rightarrow> Inr st'
           | v # vs \<Rightarrow> Inr (st'\<lparr>nsp := n\<lparr>output' := Some v\<rparr>\<rparr>))
      | Noflatten \<Rightarrow> Inr (st'\<lparr>nsp := n\<lparr>noflatten := True\<rparr>\<rparr>)
      | Latexmk \<Rightarrow>
          (case argument_strings of
             [] \<Rightarrow> Inr st'
           | v # vs \<Rightarrow> Inr (st'\<lparr>nsp := n\<lparr>latexmk := v\<rparr>\<rparr>))
      | Engine \<Rightarrow>
          (case argument_strings of
             [] \<Rightarrow> Inr st'
           | v # vs \<Rightarrow>
               if v \<in> set engine_choices then Inr (st'\<lparr>nsp := n\<lparr>engine := v\<rparr>\<rparr>)
               else Inl (Error_exit (Invalid_choice Engine v)))
      | NoStripComments \<Rightarrow> Inr (st'\<lparr>nsp := n\<lparr>no_strip_comments := True\<rparr>\<rparr>)
      | IncludePackages \<Rightarrow> Inr (st'\<lparr>nsp := AppendList_call n argument_strings\<rparr>))"

fun take_actions :: "(action \<times> string list) list \<Rightarrow> pstate \<Rightarrow> parse_exit + pstate" where
  "take_actions [] st = Inr st"
| "take_actions ((a, args) # ts) st =
     (case take_action a args st of Inl e \<Rightarrow> Inl e | Inr st' \<Rightarrow> take_actions ts st')"

text \<open>
  \<^verbatim>\<open>_match_argument\<close> for an option: its \<^verbatim>\<open>nargs\<close> pattern (\<^verbatim>\<open>(A)\<close> for
  \<^verbatim>\<open>None\<close>, \<^verbatim>\<open>(A?)\<close> for \<^verbatim>\<open>"?"\<close>, n times \<^verbatim>\<open>A\<close> for a number) is matched at
  the start of the pattern of the strings that follow; the result is the number of
  strings matched.
\<close>

fun is_Arg :: "tok \<Rightarrow> bool" where
  "is_Arg (Arg s) = True"
| "is_Arg _ = False"

definition match_argument :: "action \<Rightarrow> tok list \<Rightarrow> parse_error + nat" where
  "match_argument a pat =
     (case nargs_of a of
        Nargs_None \<Rightarrow>
          if list_all is_Arg (take 1 pat) \<and> 1 \<le> length pat then Inr 1
          else Inl (Expected_one_argument a)
      | Nargs_Optional \<Rightarrow>
          if list_all is_Arg (take 1 pat) \<and> 1 \<le> length pat then Inr 1 else Inr 0
      | Nargs n \<Rightarrow>
          if list_all is_Arg (take n pat) \<and> n \<le> length pat then Inr n
          else Inl (Expected_arguments a n))"

text \<open>
  The \<^verbatim>\<open>while True\<close> loop of \<^verbatim>\<open>consume_optional\<close>. It returns the action tuples
  to take, the strings it adds to \<^verbatim>\<open>extras\<close>, and how many of the following strings
  the option consumed. With an explicit argument the option must take exactly one
  string, unless it is a single-dash option without arguments: then the rest of the
  string is read as further single-dash options (\<^verbatim>\<open>-hofoo\<close>).
\<close>

function consume_optional_tuples ::
  "action option \<Rightarrow> string \<Rightarrow> string option \<Rightarrow> string option \<Rightarrow> (action \<times> string list) list
   \<Rightarrow> string \<Rightarrow> tok list
   \<Rightarrow> parse_error + ((action \<times> string list) list \<times> string list \<times> nat)" where
  "consume_optional_tuples action option_string sep explicit_arg action_tuples arg_string following =
     (case action of
        None \<Rightarrow> Inr ([], [arg_string], 0)
      | Some a \<Rightarrow>
          (case explicit_arg of
             None \<Rightarrow>
               (case match_argument a following of
                  Inl e \<Rightarrow> Inl e
                | Inr arg_count \<Rightarrow>
                    Inr (action_tuples @ [(a, map arg_string_of (take arg_count following))],
                         [], arg_count))
           | Some ea \<Rightarrow>
               (case match_argument a [Arg ea] of
                  Inl e \<Rightarrow> Inl e
                | Inr arg_count \<Rightarrow>
                    if arg_count = 0 \<and> take 1 (drop 1 option_string) \<noteq> ''-'' \<and> ea \<noteq> [] then
                      if sep = Some ''='' \<or> take 1 ea = ''-''
                      then Inl (Ignored_explicit_argument a ea)
                      else
                        (let option_string' = take 1 option_string @ take 1 ea
                         in case map_of option_string_actions option_string' of
                           None \<Rightarrow>
                             Inr (action_tuples @ [(a, [])], [take 1 option_string @ ea], 0)
                         | Some a' \<Rightarrow>
                             if tl ea = [] then
                               consume_optional_tuples (Some a') option_string' None None
                                 (action_tuples @ [(a, [])]) arg_string following
                             else if take 1 (tl ea) = ''='' then
                               consume_optional_tuples (Some a') option_string' (Some ''='')
                                 (Some (tl (tl ea))) (action_tuples @ [(a, [])]) arg_string following
                             else
                               consume_optional_tuples (Some a') option_string' (Some [])
                                 (Some (tl ea)) (action_tuples @ [(a, [])]) arg_string following)
                    else if arg_count = 1 then Inr (action_tuples @ [(a, [ea])], [], 0)
                    else Inl (Ignored_explicit_argument a ea))))"
  by pat_completeness auto
termination
  by (relation "measure (\<lambda>(action, option_string, sep, explicit_arg, rest).
        case explicit_arg of None \<Rightarrow> 0 | Some ea \<Rightarrow> Suc (length ea))")
     (auto split: option.splits)

declare consume_optional_tuples.simps [simp del]

text \<open>
  \<^verbatim>\<open>consume_optional\<close>: the tuples are taken in order once the loop has ended; the
  result is the new state and the number of following strings consumed.
\<close>

definition consume_optional ::
  "pstate \<Rightarrow> string \<Rightarrow> option_tuple \<Rightarrow> tok list \<Rightarrow> parse_exit + (pstate \<times> nat)" where
  "consume_optional st arg_string t following =
     (case t of Option_tuple action option_string sep explicit_arg \<Rightarrow>
        (case consume_optional_tuples action option_string sep explicit_arg [] arg_string following of
           Inl e \<Rightarrow> Inl (Error_exit e)
         | Inr (action_tuples, new_extras, n) \<Rightarrow>
             (case take_actions action_tuples (st\<lparr>extras := extras st @ new_extras\<rparr>) of
                Inl e \<Rightarrow> Inl e
              | Inr st' \<Rightarrow> Inr (st', n))))"

text \<open>
  \<^verbatim>\<open>consume_positionals\<close>: with no positional left nothing is matched. Otherwise
  the pattern \<^verbatim>\<open>(-*A?-*)\<close> of the \<^verbatim>\<open>"?"\<close> positional always matches, possibly no
  string at all, the action is taken with the strings matched, and the positional is
  used up. (The parser has one positional.)
\<close>

definition consume_positionals :: "pstate \<Rightarrow> tok list \<Rightarrow> parse_exit + (pstate \<times> nat)" where
  "consume_positionals st toks =
     (case positionals st of
        [] \<Rightarrow> Inr (st, 0)
      | a # ps \<Rightarrow>
          (let n1 = length (takeWhile is_Dash toks);
               na = (if list_all is_Arg (take 1 (drop n1 toks)) \<and> n1 < length toks then 1 else 0);
               n2 = length (takeWhile is_Dash (drop (n1 + na) toks));
               arg_count = n1 + na + n2
           in case take_action a (map arg_string_of (take arg_count toks)) (st\<lparr>positionals := ps\<rparr>) of
             Inl e \<Rightarrow> Inl e
           | Inr st' \<Rightarrow> Inr (st', arg_count)))"

text \<open>
  The main loop of \<^verbatim>\<open>_parse_known_args\<close> on the strings not yet consumed
  (\<^verbatim>\<open>arg_strings[start_index:]\<close>): while an option is left, positionals are consumed
  up to the next option, what no positional takes goes to \<^verbatim>\<open>extras\<close>, and the option
  is consumed; after the last option the positionals are consumed once more and the
  rest goes to \<^verbatim>\<open>extras\<close>.
\<close>

function parse_loop :: "pstate \<Rightarrow> tok list \<Rightarrow> parse_exit + pstate" where
  "parse_loop st toks =
     (if \<not> list_ex is_Opt toks then
        (case consume_positionals st toks of
           Inl e \<Rightarrow> Inl e
         | Inr (st', stop_index) \<Rightarrow>
             Inr (st'\<lparr>extras := extras st' @ map arg_string_of (drop stop_index toks)\<rparr>))
      else
        (case toks of
           [] \<Rightarrow> Inr st
         | Opt s t # following \<Rightarrow>
             (case consume_optional st s t following of
                Inl e \<Rightarrow> Inl e
              | Inr (st', n) \<Rightarrow> parse_loop st' (drop n following))
         | tok # toks' \<Rightarrow>
             (case consume_positionals st toks of
                Inl e \<Rightarrow> Inl e
              | Inr (st', positionals_end_index) \<Rightarrow>
                  if positionals_end_index > 0 then parse_loop st' (drop positionals_end_index toks)
                  else
                    (case dropWhile (\<lambda>t. \<not> is_Opt t) toks of
                       Opt s t # following \<Rightarrow>
                         (case consume_optional
                                 (st'\<lparr>extras := extras st' @
                                    map arg_string_of (takeWhile (\<lambda>t. \<not> is_Opt t) toks)\<rparr>)
                                 s t following of
                            Inl e \<Rightarrow> Inl e
                          | Inr (st'', n) \<Rightarrow> parse_loop st'' (drop n following))
                     | _ \<Rightarrow> Inr st'))))"
  by pat_completeness auto
termination
proof -
  have shorter: "length ys < length xs" if "dropWhile P xs = y # ys"
    for P and xs ys :: "tok list" and y
  proof -
    have "length (dropWhile P xs) \<le> length xs"
      by (rule length_dropWhile_le)
    with that show ?thesis by simp
  qed
  show ?thesis
    by (relation "measure (\<lambda>(st, toks). length toks)")
       (auto dest!: shorter)
qed

declare parse_loop.simps [simp del]

text \<open>
  \<^verbatim>\<open>parse_known_args\<close> and \<^verbatim>\<open>parse_args\<close>: the strings are classified, the loop
  runs from the defaults, and strings left in \<^verbatim>\<open>extras\<close> are an error
  (\<^verbatim>\<open>unrecognized arguments\<close>). No argument of this parser is required.
\<close>

definition parse_known_args :: "string list \<Rightarrow> parse_exit + pstate" where
  "parse_known_args args =
     (case classify args of
        Inl e \<Rightarrow> Inl (Error_exit e)
      | Inr toks \<Rightarrow>
          parse_loop \<lparr>nsp = initial_namespace, positionals = [Texfile], extras = [], taken = []\<rparr> toks)"

definition parse_args :: "string list \<Rightarrow> parse_exit + namespace" where
  "parse_args args =
     (case parse_known_args args of
        Inl e \<Rightarrow> Inl e
      | Inr st \<Rightarrow>
          if extras st \<noteq> [] then Inl (Error_exit (Unrecognized_arguments (extras st)))
          else Inr (nsp st))"

section \<open>\<^verbatim>\<open>os.path\<close> on POSIX\<close>

text \<open>
  \<^verbatim>\<open>main\<close> calls \<^verbatim>\<open>os.path.abspath\<close>, \<^verbatim>\<open>os.path.dirname\<close> and
  \<^verbatim>\<open>os.path.join\<close>; they are modelled as \<^verbatim>\<open>posixpath\<close> defines them, with the
  current working directory (\<^verbatim>\<open>os.getcwd()\<close>) as a parameter.
\<close>

definition path_join :: "string \<Rightarrow> string \<Rightarrow> string" where
  "path_join a b =
     (if take 1 b = ''/'' then b
      else if a = [] \<or> last a = CHR ''/'' then a @ b
      else a @ ''/'' @ b)"

definition dirname :: "string \<Rightarrow> string" where
  "dirname p =
     (let head = rev (dropWhile (\<lambda>c. c \<noteq> CHR ''/'') (rev p))
      in if head \<noteq> [] \<and> \<not> list_all (\<lambda>c. c = CHR ''/'') head
         then rev (dropWhile (\<lambda>c. c = CHR ''/'') (rev head))
         else head)"

text \<open>\<^verbatim>\<open>path.split('/')\<close> and \<^verbatim>\<open>'/'.join(comps)\<close>.\<close>

fun split_sep :: "string \<Rightarrow> string list" where
  "split_sep [] = [[]]"
| "split_sep (c # cs) =
     (if c = CHR ''/'' then [] # split_sep cs
      else (case split_sep cs of [] \<Rightarrow> [[c]] | w # ws \<Rightarrow> (c # w) # ws))"

fun join_sep :: "string list \<Rightarrow> string" where
  "join_sep [] = []"
| "join_sep [w] = w"
| "join_sep (w # ws) = w @ ''/'' @ join_sep ws"

text \<open>The loop of \<^verbatim>\<open>normpath\<close> over the components, \<^verbatim>\<open>new_comps\<close> as accumulator.\<close>

fun norm_comps :: "nat \<Rightarrow> string list \<Rightarrow> string list \<Rightarrow> string list" where
  "norm_comps initial_slashes [] new_comps = new_comps"
| "norm_comps initial_slashes (part # parts) new_comps =
     (if part = [] \<or> part = ''.'' then norm_comps initial_slashes parts new_comps
      else if part \<noteq> ''..'' \<or> (initial_slashes = 0 \<and> new_comps = [])
              \<or> (new_comps \<noteq> [] \<and> last new_comps = ''..'')
      then norm_comps initial_slashes parts (new_comps @ [part])
      else if new_comps \<noteq> [] then norm_comps initial_slashes parts (butlast new_comps)
      else norm_comps initial_slashes parts new_comps)"

definition normpath :: "string \<Rightarrow> string" where
  "normpath path =
     (if path = [] then ''.''
      else
        (let initial_slashes =
               (if take 1 path = ''/''
                then (if take 2 path = ''//'' \<and> take 3 path \<noteq> ''///'' then 2 else 1)
                else (0::nat));
             p = replicate initial_slashes CHR ''/''
                 @ join_sep (norm_comps initial_slashes (split_sep path) [])
         in if p = [] then ''.'' else p))"

definition abspath :: "string \<Rightarrow> string \<Rightarrow> string" where
  "abspath cwd path =
     normpath (if take 1 path = ''/'' then path else path_join cwd path)"

section \<open>\<^verbatim>\<open>main\<close> (cli.py)\<close>

text \<open>
  The keyword arguments of the one call of \<^verbatim>\<open>collect\<close>. \<^verbatim>\<open>collect\<close> itself
  (deps.py) is not among the sources: \<^verbatim>\<open>main\<close> takes it as a parameter, a function
  from the arguments to what the call does, return or raise. An exception is an
  instance of \<^verbatim>\<open>LatexmkException\<close> or any other instance of \<^verbatim>\<open>Exception\<close>, with
  its message \<^verbatim>\<open>str(e)\<close>.
\<close>

record collect_call =
  c_texfile :: "string option"
  c_output_dir :: string
  c_flatten :: bool
  c_latexmk_path :: string
  c_engine :: string
  c_strip_comments :: bool
  c_include_packages :: "string list list option"

datatype exn = LatexmkException string | Exception string

datatype collect_outcome = Returns | Raises exn

text \<open>
  What \<^verbatim>\<open>main\<close> prints on standard output, one entry per \<^verbatim>\<open>print\<close>: the text,
  or for the line \<^verbatim>\<open>Including additional packages/directories: {include_packages}\<close>
  the list that Python formats there.
\<close>

datatype line = Text string | Including_packages "string list list"

text \<open>
  One run of \<^verbatim>\<open>main\<close> past \<^verbatim>\<open>parse_args\<close>: the prints on standard output and on
  standard error, the exit status of the process (0 when \<^verbatim>\<open>main\<close> returns, the
  argument of \<^verbatim>\<open>sys.exit\<close> otherwise) and the call of \<^verbatim>\<open>collect\<close>, if one was made.
\<close>

record run =
  stdout :: "line list"
  stderr :: "string list"
  status :: int
  called :: "collect_call option"

text \<open>Python's truth value of an attribute that is \<^verbatim>\<open>None\<close> or a string.\<close>

fun truthy :: "string option \<Rightarrow> bool" where
  "truthy None = False"
| "truthy (Some s) = (s \<noteq> [])"

fun str_of :: "string option \<Rightarrow> string" where
  "str_of None = []"
| "str_of (Some s) = s"

text \<open>
  \<^verbatim>\<open>main\<close>. \<^verbatim>\<open>parse_args()\<close> is called before the \<^verbatim>\<open>try\<close>, so its
  \<^verbatim>\<open>SystemExit\<close> leaves \<^verbatim>\<open>main\<close> (the left summand). Inside the \<^verbatim>\<open>try\<close> the
  output directory is chosen, the settings are printed and \<^verbatim>\<open>collect\<close> is called;
  the two \<^verbatim>\<open>except\<close> clauses print to standard error and call \<^verbatim>\<open>sys.exit(1)\<close>.
\<close>

definition main :: "string \<Rightarrow> (collect_call \<Rightarrow> collect_outcome) \<Rightarrow> string list \<Rightarrow> parse_exit + run" where
  "main cwd collect argv =
     (case parse_args argv of
        Inl e \<Rightarrow> Inl e
      | Inr args \<Rightarrow>
          (let latexmk_path = latexmk args;
               engine_name = engine args;
               tex = texfile args;
               flatten = (\<not> noflatten args);
               strip_comments = (\<not> no_strip_comments args);
               packages = include_packages args;
               output_dir =
                 (if truthy (output' args) then str_of (output' args)
                  else if truthy tex then
                    (let tex_dir = dirname (abspath cwd (str_of tex))
                     in if flatten then path_join tex_dir ''output''
                        else path_join tex_dir ''output_no_flatten'')
                  else if flatten then ''output''
                  else ''output_no_flatten'');
               printed =
                 [Text (''Using latexmk: '' @ latexmk_path),
                  Text (''TeX engine: '' @ engine_name),
                  Text (''Main .tex file: '' @ (if truthy tex then str_of tex else ''(auto-detect)'')),
                  Text (if flatten then ''Flattening output for journal submission (default).''
                        else ''Preserving directory structure (no flatten).'')]
                 @ (if \<not> strip_comments
                    then [Text ''Comments will NOT be stripped from .tex files.''] else [])
                 @ (case packages of
                      None \<Rightarrow> []
                    | Some items \<Rightarrow> if items \<noteq> [] then [Including_packages items] else []);
               call = \<lparr>c_texfile = tex, c_output_dir = output_dir, c_flatten = flatten,
                       c_latexmk_path = latexmk_path, c_engine = engine_name,
                       c_strip_comments = strip_comments, c_include_packages = packages\<rparr>
           in case collect call of
             Returns \<Rightarrow>
               Inr \<lparr>stdout = printed @
                      [Text (CHR 0x0A # ''Packaging complete!''),
                       Text (''Your packaged files are in: '' @ abspath cwd output_dir)],
                    stderr = [], status = 0, called = Some call\<rparr>
           | Raises (LatexmkException e) \<Rightarrow>
               Inr \<lparr>stdout = printed, stderr = [''Latexmk error: '' @ e], status = 1,
                    called = Some call\<rparr>
           | Raises (Exception e) \<Rightarrow>
               Inr \<lparr>stdout = printed, stderr = [''Error: '' @ e], status = 1,
                    called = Some call\<rparr>))"

text \<open>The exit status of the process.\<close>

definition process_status :: "parse_exit + run \<Rightarrow> int" where
  "process_status r = (case r of Inl e \<Rightarrow> exit_status e | Inr r' \<Rightarrow> status r')"

section \<open>Vocabulary of the statements\<close>

text \<open>
  The argument strings that the calls of one action received, in command-line order.
\<close>

definition supplied :: "action \<Rightarrow> (action \<times> string list) list \<Rightarrow> string list" where
  "supplied a tk = concat (map snd (filter (\<lambda>p. fst p = a) tk))"

text \<open>
  A call of an action fits the action's \<^verbatim>\<open>nargs\<close>: one string for \<^verbatim>\<open>None\<close>,
  n strings for the number n.
\<close>

definition fits :: "action \<times> string list \<Rightarrow> bool" where
  "fits p =
     (case nargs_of (fst p) of
        Nargs_None \<Rightarrow> length (snd p) = 1
      | Nargs_Optional \<Rightarrow> True
      | Nargs n \<Rightarrow> length (snd p) = n)"

text \<open>
  The invariant of the parser's loop: every call so far fits its action, only the
  positional \<^verbatim>\<open>texfile\<close> is left to consume, and each attribute of the namespace
  is determined by the calls taken so far (the default when there was none).
\<close>

definition consistent :: "pstate \<Rightarrow> bool" where
  "consistent st =
     (list_all fits (taken st)
      \<and> list_all (\<lambda>a. a = Texfile) (positionals st)
      \<and> latexmk (nsp st) = last (''latexmk'' # supplied Latexmk (taken st))
      \<and> engine (nsp st) = last (''pdflatex'' # supplied Engine (taken st))
      \<and> last (''pdflatex'' # supplied Engine (taken st)) \<in> set engine_choices
      \<and> noflatten (nsp st) = (Noflatten \<in> fst ` set (taken st))
      \<and> no_strip_comments (nsp st) = (NoStripComments \<in> fst ` set (taken st))
      \<and> include_packages (nsp st) =
          (if IncludePackages \<in> fst ` set (taken st)
           then Some (map snd (filter (\<lambda>p. fst p = IncludePackages) (taken st)))
           else None)
      \<and> output' (nsp st) =
          (if Output \<in> fst ` set (taken st) then Some (last (supplied Output (taken st)))
           else None))"


text \<open>Three behaviours of \<^verbatim>\<open>collect\<close>, for concrete runs.\<close>

definition always_returns :: "collect_call \<Rightarrow> collect_outcome" where
  "always_returns c = Returns"

definition latexmk_fails :: "collect_call \<Rightarrow> collect_outcome" where
  "latexmk_fails c = Raises (LatexmkException ''latexmk not found'')"

definition packaging_fails :: "collect_call \<Rightarrow> collect_outcome" where
  "packaging_fails c = Raises (Exception ''cannot read file'')"

text \<open>What the \<^verbatim>\<open>except\<close> clause that catches an exception prints for it.\<close>

fun report :: "exn \<Rightarrow> string" where
  "report (LatexmkException e) = ''Latexmk error: '' @ e"
| "report (Exception e) = ''Error: '' @ e"


text \<open>
  The calls of the options' actions as the command line shows them: one call for
  every argument string that \<^verbatim>\<open>argparse\<close> classifies as an option of the parser,
  with the explicit argument glued to the option (\<^verbatim>\<open>--output=dir\<close>, \<^verbatim>\<open>-odir\<close>) or,
  for an option that takes one, the string that follows it.
\<close>

fun option_calls :: "tok list \<Rightarrow> (action \<times> string list) list" where
  "option_calls [] = []"
| "option_calls (Opt s (Option_tuple (Some a) os sep ea) # following) =
     (a, case ea of
           Some e \<Rightarrow> [e]
         | None \<Rightarrow> map arg_string_of (take (if nargs_of a = Nargs_None then 1 else 0) following))
     # option_calls following"
| "option_calls (tok # following) = option_calls following"

text \<open>
  An option tuple with an action names an option string of the parser and the action
  registered for it.
\<close>

fun wf_tok :: "tok \<Rightarrow> bool" where
  "wf_tok (Opt s (Option_tuple (Some a) os sep ea)) = (map_of option_string_actions os = Some a)"
| "wf_tok tok = True"

section \<open>CommentStripper (spec, section 4.3)\<close>

text \<open>
  Modelled from the spec: the comment stripper \<^verbatim>\<open>strip\<close>, whose code (called from
  \<^verbatim>\<open>collect\<close> in deps.py) is not among the sources. The spec's rule: a comment begins
  at an unescaped \<^verbatim>\<open>%\<close> and runs to the end of the line; regions delimited by
  verbatim-style begin and end markers are passed through unmodified, \<^verbatim>\<open>%\<close>
  included; a \<^verbatim>\<open>%\<close> preceded by an odd number of escape characters starts no
  comment. The newline that ends a comment is kept, as in the spec's example
  \<^verbatim>\<open>strip("a %comment\nb") = "a \nb"\<close>.

  The stripper is a scanner with four modes. In normal text a backslash escapes the
  next character, unless it begins the begin marker of a verbatim-style environment;
  in a verbatim region everything is kept up to the end marker of the same
  environment. The verbatim-style environments are \<^verbatim>\<open>verbatim\<close> and
  \<^verbatim>\<open>lstlisting\<close> (the spec's "verbatim/listing environments").
\<close>

datatype mode = Normal | Escaped | Comment | Verbatim string

definition backslash :: char where
  "backslash = CHR 0x5C"

definition newline :: char where
  "newline = CHR 0x0A"

definition percent :: char where
  "percent = CHR ''%''"

definition verbatim_envs :: "string list" where
  "verbatim_envs = [''verbatim'', ''lstlisting'']"

definition begin_marker :: "string \<Rightarrow> string" where
  "begin_marker e = backslash # ''begin{'' @ e @ ''}''"

definition end_marker :: "string \<Rightarrow> string" where
  "end_marker e = backslash # ''end{'' @ e @ ''}''"

text \<open>The environment whose begin marker starts the text, if there is one.\<close>

definition opens :: "string \<Rightarrow> string option" where
  "opens s = find (\<lambda>e. prefix (begin_marker e) s) verbatim_envs"

text \<open>
  The mode after the first character of the remaining text, and whether that
  character is kept.
\<close>

fun next_mode :: "mode \<Rightarrow> string \<Rightarrow> mode" where
  "next_mode m [] = m"
| "next_mode Normal (c # cs) =
     (if c = percent then Comment
      else if c = backslash then
        (case opens (c # cs) of Some e \<Rightarrow> Verbatim e | None \<Rightarrow> Escaped)
      else Normal)"
| "next_mode Escaped (c # cs) = Normal"
| "next_mode Comment (c # cs) = (if c = newline then Normal else Comment)"
| "next_mode (Verbatim e) (c # cs) =
     (if prefix (end_marker e) (c # cs) then Normal else Verbatim e)"

fun keeps :: "mode \<Rightarrow> char \<Rightarrow> bool" where
  "keeps Normal c = (c \<noteq> percent)"
| "keeps Escaped c = True"
| "keeps Comment c = (c = newline)"
| "keeps (Verbatim e) c = True"

text \<open>
  Modelled from the spec: the scan of \<^verbatim>\<open>strip\<close> from a given mode (section 4.3; the stripper's
  code is missing): a character is kept or dropped by the mode it is read in.
\<close>

fun strip_from :: "mode \<Rightarrow> string \<Rightarrow> string" where
  "strip_from m [] = []"
| "strip_from m (c # cs) =
     (if keeps m c then [c] else []) @ strip_from (next_mode m (c # cs)) cs"

fun mode_after :: "mode \<Rightarrow> string \<Rightarrow> mode" where
  "mode_after m [] = m"
| "mode_after m (c # cs) = mode_after (next_mode m (c # cs)) cs"

text \<open>
  Modelled from the spec: \<^verbatim>\<open>strip(text)\<close> of the CommentStripper (section 4.3; its code is
  missing): the scan starts in normal mode.
\<close>

definition strip :: "string \<Rightarrow> string" where
  "strip text = strip_from Normal text"

text \<open>
  A verbatim mode of the scanner is for one of the environments; after a comment
  mode the stripped text continues in normal mode.
\<close>

fun known :: "mode \<Rightarrow> bool" where
  "known (Verbatim e) = (e \<in> set verbatim_envs)"
| "known m = True"

fun settle :: "mode \<Rightarrow> mode" where
  "settle Comment = Normal"
| "settle m = m"

section \<open>OutputLayoutPlanner (spec, section 4.5)\<close>

text \<open>
  Modelled from the spec: the planner \<^verbatim>\<open>plan(graph, flatten)\<close>, whose code is not
  among the sources. A source file is its absolute path, a list of components; the
  planner gets the sources of the graph in discovery order.

  Without flattening the destination is the path relative to the common ancestor of
  all sources. With flattening it is the base filename alone, and a source whose
  base filename is already assigned gets a suffix appended that is derived from its
  relative path: an underscore and the name for each directory of the path. The spec
  requires the suffix to be distinguishing and leaves its form open; here underscores
  are added to it until the name differs from every name assigned so far and from the
  base filename of every source, so that the first source of each base filename
  keeps the unmodified name.
\<close>

type_synonym path = "string list"

definition base_name :: "path \<Rightarrow> string" where
  "base_name p = (if p = [] then [] else last p)"

definition common_ancestor :: "path list \<Rightarrow> path" where
  "common_ancestor srcs =
     (case srcs of
        [] \<Rightarrow> []
      | p # ps \<Rightarrow> fold (\<lambda>q anc. longest_common_prefix anc (butlast q)) ps (butlast p))"

definition relative_to :: "path \<Rightarrow> path \<Rightarrow> path" where
  "relative_to anc p = drop (length anc) p"

definition suffix_token :: "path \<Rightarrow> path \<Rightarrow> string" where
  "suffix_token anc p = concat (map (\<lambda>d. CHR ''_'' # d) (butlast (relative_to anc p)))"

definition candidates :: "path \<Rightarrow> path \<Rightarrow> nat \<Rightarrow> string list" where
  "candidates anc p n =
     map (\<lambda>k. base_name p @ suffix_token anc p @ replicate k CHR ''_'') [0..<n]"

text \<open>
  The disambiguated name: the first candidate outside \<^verbatim>\<open>avoid\<close>. One more candidate
  is tried than \<^verbatim>\<open>avoid\<close> has names, so one is found.
\<close>

definition disambiguate :: "path \<Rightarrow> string list \<Rightarrow> path \<Rightarrow> string" where
  "disambiguate anc avoid p =
     (case find (\<lambda>n. n \<notin> set avoid) (candidates anc p (Suc (length avoid))) of
        Some n \<Rightarrow> n
      | None \<Rightarrow> base_name p)"

text \<open>
  Modelled from the spec: the flattening branch of \<^verbatim>\<open>plan\<close> (section 4.5; the planner's code
  is missing), over the sources in discovery order, with the names assigned so far.
\<close>

fun plan_flat :: "path \<Rightarrow> string list \<Rightarrow> string list \<Rightarrow> path list \<Rightarrow> (path \<times> path) list" where
  "plan_flat anc reserved used [] = []"
| "plan_flat anc reserved used (p # ps) =
     (let name = (if base_name p \<in> set used then disambiguate anc (reserved @ used) p
                  else base_name p)
      in (p, [name]) # plan_flat anc reserved (name # used) ps)"

text \<open>
  Modelled from the spec: \<^verbatim>\<open>plan(graph, flatten)\<close> of the OutputLayoutPlanner (section 4.5;
  its code is missing), on the sources of the graph in discovery order.
\<close>

definition plan :: "path list \<Rightarrow> bool \<Rightarrow> (path \<times> path) list" where
  "plan srcs flatten =
     (if flatten then plan_flat (common_ancestor srcs) (map base_name srcs) [] srcs
      else map (\<lambda>p. (p, relative_to (common_ancestor srcs) p)) srcs)"

section \<open>The main document (spec, sections 6 and 7)\<close>

text \<open>
  Modelled from the spec: how \<^verbatim>\<open>collect\<close> (deps.py, not among the sources) settles
  the main document before it packages anything. \<^verbatim>\<open>main\<close> passes \<^verbatim>\<open>texfile\<close> on as
  it is, \<^verbatim>\<open>None\<close> when the command line names no file. The spec: the main document
  is the path given, or auto-detected, the single \<^verbatim>\<open>.tex\<close> file of the current
  directory; more than one candidate is an error raised before the core runs, and an
  ambiguous or missing main document aborts before any file is written.

  The current directory is the list of its file names. The packaging that follows
  is a parameter: it returns what the call does and the files it wrote. So is the
  text of the error message, which the spec does not give.
\<close>

datatype config_error = Ambiguous_main_document "string list" | Missing_main_document

definition is_tex :: "string \<Rightarrow> bool" where
  "is_tex name = suffix ''.tex'' name"

text \<open>
  Modelled from the spec: the main document that \<^verbatim>\<open>collect\<close> works on (section 6; the code
  of \<^verbatim>\<open>collect\<close> is missing): the path given, or the single \<^verbatim>\<open>.tex\<close> file of the
  current directory.
\<close>

definition main_document :: "string option \<Rightarrow> string list \<Rightarrow> config_error + string" where
  "main_document given listing =
     (case given of
        Some t \<Rightarrow> Inr t
      | None \<Rightarrow>
          (case filter is_tex listing of
             [] \<Rightarrow> Inl Missing_main_document
           | [t] \<Rightarrow> Inr t
           | t # t' # ts \<Rightarrow> Inl (Ambiguous_main_document (t # t' # ts))))"

text \<open>
  Modelled from the spec: \<^verbatim>\<open>collect\<close> as far as sections 6 and 7 describe its start (its code
  is missing): a configuration error is raised before the packaging runs and before
  any file is written.
\<close>

definition collect_spec ::
  "(config_error \<Rightarrow> string) \<Rightarrow> string list
   \<Rightarrow> (string \<Rightarrow> collect_call \<Rightarrow> collect_outcome \<times> string list)
   \<Rightarrow> collect_call \<Rightarrow> collect_outcome \<times> string list" where
  "collect_spec describe listing package call =
     (case main_document (c_texfile call) listing of
        Inl e \<Rightarrow> (Raises (Exception (describe e)), [])
      | Inr doc \<Rightarrow> package doc call)"

text \<open>A packaging that writes the main document and returns, for concrete runs.\<close>

definition package_one :: "string \<Rightarrow> collect_call \<Rightarrow> collect_outcome \<times> string list" where
  "package_one doc call = (Returns, [doc])"

fun describe_error :: "config_error \<Rightarrow> string" where
  "describe_error (Ambiguous_main_document names) = ''ambiguous main document''"
| "describe_error Missing_main_document = ''no main document''"

section \<open>The parser keeps its invariant\<close>

lemma supplied_append:
  "supplied a (tk @ [(b, args)]) = supplied a tk @ (if a = b then args else [])"
  by (simp add: supplied_def)



lemma last_Cons_snoc: "last (x # xs @ [v]) = v"
  by simp

lemma take_action_consistent:
  assumes c: "consistent st" and f: "fits (a, args)" and t: "take_action a args st = Inr st'"
  shows "consistent st'"
proof (cases a)
  case Help
  with t show ?thesis by (simp add: take_action_def)
next
  case Version
  with t show ?thesis by (simp add: take_action_def)
next
  case Texfile
  with t have "st' = st\<lparr>taken := taken st @ [(Texfile, args)],
      nsp := (nsp st)\<lparr>texfile := (case remove1 ''--'' args of [] \<Rightarrow> None | v # vs \<Rightarrow> Some v)\<rparr>\<rparr>"
    by (simp add: take_action_def)
  with c show ?thesis
    by (simp add: consistent_def supplied_append fits_def last_Cons_snoc del: last.simps)
next
  case Output
  with f obtain v where args: "args = [v]"
    by (cases args) (auto simp: fits_def)
  with t Output have "st' = st\<lparr>taken := taken st @ [(Output, [v])],
      nsp := (nsp st)\<lparr>output' := Some v\<rparr>\<rparr>"
    by (simp add: take_action_def)
  with c show ?thesis
    by (simp add: consistent_def supplied_append fits_def last_Cons_snoc del: last.simps)
next
  case Noflatten
  with t have "st' = st\<lparr>taken := taken st @ [(Noflatten, args)],
      nsp := (nsp st)\<lparr>noflatten := True\<rparr>\<rparr>"
    by (simp add: take_action_def)
  with c f Noflatten show ?thesis
    by (simp add: consistent_def supplied_append fits_def last_Cons_snoc del: last.simps)
next
  case Latexmk
  with f obtain v where args: "args = [v]"
    by (cases args) (auto simp: fits_def)
  with t Latexmk have "st' = st\<lparr>taken := taken st @ [(Latexmk, [v])],
      nsp := (nsp st)\<lparr>latexmk := v\<rparr>\<rparr>"
    by (simp add: take_action_def)
  with c show ?thesis
    by (simp add: consistent_def supplied_append fits_def last_Cons_snoc del: last.simps)
next
  case Engine
  with f obtain v where args: "args = [v]"
    by (cases args) (auto simp: fits_def)
  with t Engine have "v \<in> set engine_choices" and "st' = st\<lparr>taken := taken st @ [(Engine, [v])],
      nsp := (nsp st)\<lparr>engine := v\<rparr>\<rparr>"
    by (simp_all add: take_action_def split: if_splits)
  with c show ?thesis
    by (simp add: consistent_def supplied_append fits_def last_Cons_snoc del: last.simps)
next
  case NoStripComments
  with t have "st' = st\<lparr>taken := taken st @ [(NoStripComments, args)],
      nsp := (nsp st)\<lparr>no_strip_comments := True\<rparr>\<rparr>"
    by (simp add: take_action_def)
  with c f NoStripComments show ?thesis
    by (simp add: consistent_def supplied_append fits_def last_Cons_snoc del: last.simps)
next
  case IncludePackages
  with t have "st' = st\<lparr>taken := taken st @ [(IncludePackages, args)],
      nsp := AppendList_call (nsp st) args\<rparr>"
    by (simp add: take_action_def)
  with c f IncludePackages show ?thesis
    by (auto simp: consistent_def supplied_append fits_def AppendList_call_def
          filter_empty_conv image_iff)
qed

lemma take_actions_consistent:
  "consistent st \<Longrightarrow> list_all fits ts \<Longrightarrow> take_actions ts st = Inr st' \<Longrightarrow> consistent st'"
proof (induction ts arbitrary: st)
  case Nil
  then show ?case by simp
next
  case (Cons p ts)
  obtain a args where p: "p = (a, args)" by (cases p)
  from Cons.prems(3) p obtain st1 where
    t1: "take_action a args st = Inr st1" and t2: "take_actions ts st1 = Inr st'"
    by (auto split: sum.splits)
  from Cons.prems(1,2) p t1 have "consistent st1"
    by (auto intro: take_action_consistent)
  with Cons.IH t2 Cons.prems(2) show ?case by simp
qed

lemma match_argument_fits:
  "match_argument a pat = Inr k \<Longrightarrow> fits (a, map arg_string_of (take k pat))"
  by (cases "nargs_of a") (auto simp: match_argument_def fits_def split: if_splits)

lemma match_argument_explicit:
  assumes "match_argument a [Arg ea] = Inr k"
  shows "(k = 0 \<longrightarrow> fits (a, [])) \<and> (k = 1 \<longrightarrow> fits (a, [ea]))"
  using assms
  by (cases "nargs_of a") (auto simp: match_argument_def fits_def split: if_splits)

lemma consume_optional_tuples_fits:
  "list_all fits acc \<Longrightarrow>
   consume_optional_tuples action option_string sep explicit_arg acc arg_string following
     = Inr (tuples, new_extras, n) \<Longrightarrow>
   list_all fits tuples"
proof (induction action option_string sep explicit_arg acc arg_string following
       rule: consume_optional_tuples.induct)
  case (1 action option_string sep explicit_arg action_tuples arg_string following)
  show ?case
  proof (cases action)
    case None
    with "1.prems"(2) show ?thesis
      by (subst (asm) consume_optional_tuples.simps) simp
  next
    case (Some a)
    show ?thesis
    proof (cases explicit_arg)
      case None
      with Some "1.prems" show ?thesis
        by (subst (asm) consume_optional_tuples.simps)
           (auto split: sum.splits dest: match_argument_fits)
    next
      case ea: (Some ea)
      from "1.prems"(2) Some ea obtain k where k: "match_argument a [Arg ea] = Inr k"
        by (subst (asm) consume_optional_tuples.simps) (auto split: sum.splits)
      note fit = match_argument_explicit [OF k]
      show ?thesis
      proof (cases "k = 0 \<and> take 1 (drop 1 option_string) \<noteq> ''-'' \<and> ea \<noteq> []")
        case False
        with "1.prems" Some ea k fit show ?thesis
          by (subst (asm) consume_optional_tuples.simps) (auto split: if_splits)
      next
        case True
        with fit "1.prems"(1) have acc: "list_all fits (action_tuples @ [(a, [])])"
          by simp
        from True "1.prems"(2) Some ea k
        have nsep: "\<not> (sep = Some ''='' \<or> take 1 ea = ''-'')"
          by (subst (asm) consume_optional_tuples.simps) (auto split: if_splits)
        show ?thesis
        proof (cases "map_of option_string_actions (take 1 option_string @ take 1 ea)")
          case None
          with True "1.prems"(2) Some ea k nsep acc show ?thesis
            by (subst (asm) consume_optional_tuples.simps) (auto simp: Let_def)
        next
          case a': (Some a')
          from True "1.prems"(2) Some ea k nsep a' show ?thesis
            apply (subst (asm) consume_optional_tuples.simps)
            apply (simp add: Let_def split: if_splits)
            using "1.IH"(1) [OF Some ea k _ _ _ a' _ acc] True nsep
              "1.IH"(2) [OF Some ea k _ _ _ a' _ _ acc]
              "1.IH"(3) [OF Some ea k _ _ _ a' _ _ acc]
            by auto
        qed
      qed
    qed
  qed
qed

lemma consistent_extras [simp]: "consistent (st\<lparr>extras := xs\<rparr>) = consistent st"
  by (simp add: consistent_def)

lemma consistent_positionals:
  "consistent st \<Longrightarrow> positionals st = a # ps \<Longrightarrow> a = Texfile \<and> consistent (st\<lparr>positionals := ps\<rparr>)"
  by (simp add: consistent_def)

lemma consume_optional_consistent:
  assumes "consistent st" and "consume_optional st s t following = Inr (st', n)"
  shows "consistent st'"
proof -
  obtain action option_string sep explicit_arg
    where t: "t = Option_tuple action option_string sep explicit_arg"
    by (cases t)
  from assms(2) t obtain tuples new_extras where
    tu: "consume_optional_tuples action option_string sep explicit_arg [] s following
           = Inr (tuples, new_extras, n)"
    and ta: "take_actions tuples (st\<lparr>extras := extras st @ new_extras\<rparr>) = Inr st'"
    by (auto simp: consume_optional_def split: sum.splits)
  from tu have "list_all fits tuples"
    by (rule consume_optional_tuples_fits [rotated]) simp
  with ta assms(1) show ?thesis
    by (auto intro: take_actions_consistent [where st = "st\<lparr>extras := extras st @ new_extras\<rparr>"])
qed

lemma consume_positionals_consistent:
  assumes "consistent st" and "consume_positionals st toks = Inr (st', n)"
  shows "consistent st'"
proof (cases "positionals st")
  case Nil
  with assms show ?thesis by (simp add: consume_positionals_def)
next
  case (Cons a ps)
  with assms(1) have a: "a = Texfile" and c: "consistent (st\<lparr>positionals := ps\<rparr>)"
    by (auto dest: consistent_positionals)
  from assms(2) Cons a obtain args where
    "take_action Texfile args (st\<lparr>positionals := ps\<rparr>) = Inr st'"
    by (auto simp: consume_positionals_def Let_def split: sum.splits)
  from take_action_consistent [OF c _ this] show ?thesis
    by (simp add: fits_def)
qed

lemma dropWhile_shorter:
  "dropWhile P xs = y # ys \<Longrightarrow> length ys < length xs"
  using length_dropWhile_le [of P xs] by simp

lemma first_option:
  assumes "list_ex is_Opt toks"
  obtains s t following where "dropWhile (\<lambda>t. \<not> is_Opt t) toks = Opt s t # following"
proof -
  from assms have ne: "dropWhile (\<lambda>t. \<not> is_Opt t) toks \<noteq> []"
    by (auto simp: list_ex_iff dropWhile_eq_Nil_conv)
  then obtain tok following where d: "dropWhile (\<lambda>t. \<not> is_Opt t) toks = tok # following"
    by (cases "dropWhile (\<lambda>t. \<not> is_Opt t) toks") auto
  with hd_dropWhile [OF ne] have "is_Opt tok" by simp
  then obtain s t where "tok = Opt s t" by (cases tok) auto
  with d that show ?thesis by blast
qed

lemma parse_loop_consistent:
  "consistent st \<Longrightarrow> parse_loop st toks = Inr st' \<Longrightarrow> consistent st'"
proof (induction "length toks" arbitrary: st toks rule: less_induct)
  case less
  show ?case
  proof (cases "list_ex is_Opt toks")
    case False
    with less.prems show ?thesis
      by (subst (asm) parse_loop.simps)
         (auto split: sum.splits dest: consume_positionals_consistent)
  next
    case True
    then obtain tok toks' where toks: "toks = tok # toks'"
      by (cases toks) auto
    show ?thesis
    proof (cases "is_Opt tok")
      case True
      then obtain s t where tok: "tok = Opt s t"
        by (cases tok) auto
      with \<open>list_ex is_Opt toks\<close> toks less.prems(2) obtain st1 n where
        co: "consume_optional st s t toks' = Inr (st1, n)"
        and pl: "parse_loop st1 (drop n toks') = Inr st'"
        by (subst (asm) parse_loop.simps) (auto split: sum.splits)
      from less.prems(1) co have "consistent st1"
        by (rule consume_optional_consistent)
      moreover have "length (drop n toks') < length toks"
        using toks by simp
      ultimately show ?thesis
        using less.hyps pl by blast
    next
      case False
      with \<open>list_ex is_Opt toks\<close> toks less.prems(2) obtain st1 k where
        cp: "consume_positionals st toks = Inr (st1, k)"
        by (subst (asm) parse_loop.simps) (cases tok; auto split: sum.splits)
      from less.prems(1) cp have c1: "consistent st1"
        by (rule consume_positionals_consistent)
      show ?thesis
      proof (cases "k > 0")
        case True
        with \<open>list_ex is_Opt toks\<close> toks less.prems(2) cp False
        have "parse_loop st1 (drop k toks) = Inr st'"
          by (subst (asm) parse_loop.simps) (cases tok; auto split: sum.splits)
        moreover have "length (drop k toks) < length toks"
          using toks True by simp
        ultimately show ?thesis
          using less.hyps c1 by blast
      next
        case k0: False
        let ?st2 = "st1\<lparr>extras := extras st1 @
                      map arg_string_of (takeWhile (\<lambda>t. \<not> is_Opt t) toks)\<rparr>"
        from \<open>list_ex is_Opt toks\<close> obtain s t following where
          dw: "dropWhile (\<lambda>t. \<not> is_Opt t) toks = Opt s t # following"
          by (rule first_option)
        with \<open>list_ex is_Opt toks\<close> toks less.prems(2) cp False k0 obtain st3 n where
          co: "consume_optional ?st2 s t following = Inr (st3, n)"
          and pl: "parse_loop st3 (drop n following) = Inr st'"
          by (subst (asm) parse_loop.simps) (cases tok; auto split: sum.splits)
        from c1 have "consistent ?st2" by simp
        from this co have "consistent st3"
          by (rule consume_optional_consistent)
        moreover have "length (drop n following) < length toks"
          using dropWhile_shorter [OF dw] by simp
        ultimately show ?thesis
          using less.hyps pl by blast
      qed
    qed
  qed
qed

lemma initial_consistent:
  "consistent \<lparr>nsp = initial_namespace, positionals = [Texfile], extras = [], taken = []\<rparr>"
  by (simp add: consistent_def initial_namespace_def supplied_def engine_choices_def)

lemma parse_known_args_consistent:
  "parse_known_args argv = Inr st \<Longrightarrow> consistent st"
  by (auto simp: parse_known_args_def split: sum.splits
           intro: parse_loop_consistent [OF initial_consistent])

section \<open>The calls of the parser are the options of the command line\<close>

lemma take_action_taken:
  assumes "take_action a args st = Inr st'"
  shows "taken st' = taken st @ [(a, args)] \<and> a \<noteq> Help \<and> a \<noteq> Version
         \<and> positionals st' = positionals st \<and> extras st' = extras st"
  using assms
  by (cases a) (auto simp: take_action_def Let_def split: list.splits if_splits)

lemma take_actions_taken:
  "take_actions ts st = Inr st' \<Longrightarrow>
   taken st' = taken st @ ts \<and> Help \<notin> fst ` set ts
   \<and> positionals st' = positionals st \<and> extras st' = extras st"
proof (induction ts arbitrary: st)
  case Nil
  then show ?case by simp
next
  case (Cons p ts)
  obtain a args where p: "p = (a, args)" by (cases p)
  from Cons.prems p obtain st1 where
    t1: "take_action a args st = Inr st1" and t2: "take_actions ts st1 = Inr st'"
    by (auto split: sum.splits)
  from take_action_taken [OF t1] Cons.IH [OF t2] p show ?case by auto
qed

lemma single_dash_flag_is_help:
  assumes "map_of option_string_actions os = Some a" and "take 1 (drop 1 os) \<noteq> ''-''"
    and "match_argument a [Arg ea] = Inr 0"
  shows "a = Help"
  using assms
  by (auto simp: option_string_actions_def match_argument_def split: if_splits)

lemma consume_optional_tuples_prefix:
  "consume_optional_tuples (Some a) os sep ea acc s following = Inr (tuples, ex, n) \<Longrightarrow>
   prefix acc tuples"
proof (induction "Some a" os sep ea acc s following arbitrary: a
       rule: consume_optional_tuples.induct)
  case (1 option_string sep explicit_arg action_tuples arg_string following)
  show ?case
  proof (cases explicit_arg)
    case None
    with "1.prems" show ?thesis
      by (subst (asm) consume_optional_tuples.simps) (auto split: sum.splits)
  next
    case ea: (Some ea)
    from "1.prems" ea obtain k where k: "match_argument a [Arg ea] = Inr k"
      by (subst (asm) consume_optional_tuples.simps) (auto split: sum.splits)
    show ?thesis
    proof (cases "k = 0 \<and> take 1 (drop 1 option_string) \<noteq> ''-'' \<and> ea \<noteq> []")
      case False
      with "1.prems" ea k show ?thesis
        by (subst (asm) consume_optional_tuples.simps) (auto split: if_splits)
    next
      case True
      from True "1.prems" ea k
      have nsep: "\<not> (sep = Some ''='' \<or> take 1 ea = ''-'')"
        by (subst (asm) consume_optional_tuples.simps) (auto split: if_splits)
      show ?thesis
      proof (cases "map_of option_string_actions (take 1 option_string @ take 1 ea)")
        case None
        with True "1.prems" ea k nsep show ?thesis
          by (subst (asm) consume_optional_tuples.simps) (auto simp: Let_def)
      next
        case a': (Some a')
        have "prefix (action_tuples @ [(a, [])]) tuples"
          using True "1.prems" ea k nsep a'
          apply (subst (asm) consume_optional_tuples.simps)
          apply (simp add: Let_def split: if_splits)
          using "1.hyps"(1) [OF refl ea k _ _ _ a'] True nsep
            "1.hyps"(2) [OF refl ea k _ _ _ a']
            "1.hyps"(3) [OF refl ea k _ _ _ a']
          by auto
        then show ?thesis
          by (auto simp: prefix_def)
      qed
    qed
  qed
qed

lemma option_action:
  assumes "map_of option_string_actions os = Some a"
  shows "a \<noteq> Texfile \<and> (nargs_of a = Nargs_None \<or> nargs_of a = Nargs 0)"
  using assms
  by (auto simp: option_string_actions_def split: if_splits)

lemma match_argument_option:
  assumes "map_of option_string_actions os = Some a" and "match_argument a pat = Inr n"
  shows "n = (if nargs_of a = Nargs_None then 1 else 0) \<and> n \<le> length pat
         \<and> list_all is_Arg (take n pat)"
  using option_action [OF assms(1)] assms(2)
  by (auto simp: match_argument_def split: if_splits)

lemma consume_optional_tuples_single:
  assumes r: "consume_optional_tuples (Some a) os sep ea [] s following = Inr (tuples, ex, n)"
    and m: "map_of option_string_actions os = Some a"
    and h: "Help \<notin> fst ` set tuples"
  shows "tuples = [(a, case ea of Some e \<Rightarrow> [e] | None \<Rightarrow> map arg_string_of (take n following))]
         \<and> (case ea of Some e \<Rightarrow> n = 0 | None \<Rightarrow> match_argument a following = Inr n)"
proof (cases ea)
  case None
  with r show ?thesis
    by (subst (asm) consume_optional_tuples.simps) (auto split: sum.splits)
next
  case (Some e)
  from r Some obtain k where k: "match_argument a [Arg e] = Inr k"
    by (subst (asm) consume_optional_tuples.simps) (auto split: sum.splits)
  show ?thesis
  proof (cases "k = 0 \<and> take 1 (drop 1 os) \<noteq> ''-'' \<and> e \<noteq> []")
    case False
    with r Some k show ?thesis
      by (subst (asm) consume_optional_tuples.simps) (auto split: if_splits)
  next
    case True
    with k m have a_help: "a = Help"
      by (auto intro: single_dash_flag_is_help)
    from True r Some k
    have nsep: "\<not> (sep = Some ''='' \<or> take 1 e = ''-'')"
      by (subst (asm) consume_optional_tuples.simps) (auto split: if_splits)
    have "prefix [(a, [])] tuples"
    proof (cases "map_of option_string_actions (take 1 os @ take 1 e)")
      case None
      with True r Some k nsep show ?thesis
        by (subst (asm) consume_optional_tuples.simps) (auto simp: Let_def)
    next
      case a': (Some a')
      from True r Some k nsep a' show ?thesis
        by (subst (asm) consume_optional_tuples.simps)
           (auto simp: Let_def split: if_splits dest: consume_optional_tuples_prefix)
    qed
    with a_help h show ?thesis
      by (auto simp: prefix_def)
  qed
qed

lemma option_calls_drop_args:
  "n \<le> length toks \<Longrightarrow> list_all is_Arg (take n toks) \<Longrightarrow>
   option_calls (drop n toks) = option_calls toks"
proof (induction toks arbitrary: n)
  case Nil
  then show ?case by simp
next
  case (Cons tok toks)
  show ?case
  proof (cases n)
    case 0
    then show ?thesis by simp
  next
    case (Suc k)
    with Cons.prems obtain s where "tok = Arg s"
      by (cases tok) auto
    with Cons.IH [of k] Cons.prems Suc show ?thesis by simp
  qed
qed

lemma option_calls_dropWhile_not_Opt:
  "option_calls (dropWhile (\<lambda>t. \<not> is_Opt t) toks) = option_calls toks"
  by (induction toks rule: option_calls.induct) auto

lemma option_calls_dropWhile_Dash:
  "option_calls (dropWhile is_Dash toks) = option_calls toks"
  by (induction toks rule: option_calls.induct) auto

lemma option_calls_none: "\<not> list_ex is_Opt toks \<Longrightarrow> option_calls toks = []"
  by (induction toks rule: option_calls.induct) auto

lemma option_calls_drop_one_arg:
  "option_calls (drop (if list_all is_Arg (take 1 toks) \<and> 0 < length toks then 1 else 0) toks)
     = option_calls toks"
  by (cases toks; cases "hd toks") auto

lemma consume_optional_calls:
  assumes r: "consume_optional st s t following = Inr (st', n)" and w: "wf_tok (Opt s t)"
  shows "taken st' @ option_calls (drop n following) = taken st @ option_calls (Opt s t # following)
         \<and> (\<forall>p \<in> set (taken st'). p \<in> set (taken st) \<or> fst p \<noteq> Texfile)"
proof -
  obtain action os sep ea where t: "t = Option_tuple action os sep ea"
    by (cases t)
  from r t obtain tuples new_extras where
    tu: "consume_optional_tuples action os sep ea [] s following = Inr (tuples, new_extras, n)"
    and ta: "take_actions tuples (st\<lparr>extras := extras st @ new_extras\<rparr>) = Inr st'"
    by (auto simp: consume_optional_def split: sum.splits)
  from take_actions_taken [OF ta]
  have tk: "taken st' = taken st @ tuples" and nh: "Help \<notin> fst ` set tuples"
    by simp_all
  show ?thesis
  proof (cases action)
    case None
    with tu have "tuples = []" and "n = 0"
      by (subst (asm) consume_optional_tuples.simps; simp)+
    with tk t None show ?thesis by simp
  next
    case (Some a)
    with w t have m: "map_of option_string_actions os = Some a"
      by simp
    from consume_optional_tuples_single [OF tu [unfolded Some] m nh]
    have tuples: "tuples = [(a, case ea of Some e \<Rightarrow> [e]
                                 | None \<Rightarrow> map arg_string_of (take n following))]"
      and n: "case ea of Some e \<Rightarrow> n = 0 | None \<Rightarrow> match_argument a following = Inr n"
      by simp_all
    have "n = (case ea of Some e \<Rightarrow> 0 | None \<Rightarrow> if nargs_of a = Nargs_None then 1 else 0)
          \<and> n \<le> length following \<and> list_all is_Arg (take n following)"
      using n match_argument_option [OF m, of following n]
      by (cases ea) auto
    with option_calls_drop_args [of n following] tuples tk t Some option_action [OF m]
    show ?thesis
      by (cases ea) auto
  qed
qed

lemma consume_positionals_calls:
  assumes c: "consistent st" and r: "consume_positionals st toks = Inr (st', k)"
  shows "filter (\<lambda>p. fst p \<noteq> Texfile) (taken st') = filter (\<lambda>p. fst p \<noteq> Texfile) (taken st)
         \<and> option_calls (drop k toks) = option_calls toks"
proof (cases "positionals st")
  case Nil
  with r show ?thesis by (simp add: consume_positionals_def)
next
  case (Cons a ps)
  with c have a: "a = Texfile"
    by (auto dest: consistent_positionals)
  define n1 where "n1 = length (takeWhile is_Dash toks)"
  define na where "na = (if list_all is_Arg (take 1 (drop n1 toks)) \<and> n1 < length toks
                         then 1 else 0::nat)"
  define n2 where "n2 = length (takeWhile is_Dash (drop (n1 + na) toks))"
  from r Cons a obtain args where
    t: "take_action Texfile args (st\<lparr>positionals := ps\<rparr>) = Inr st'"
    and k: "k = n1 + na + n2"
    by (auto simp: consume_positionals_def Let_def n1_def na_def n2_def split: sum.splits)
  have d1: "drop n1 toks = dropWhile is_Dash toks"
    by (simp add: n1_def dropWhile_eq_drop)
  have na': "na = (if list_all is_Arg (take 1 (drop n1 toks)) \<and> 0 < length (drop n1 toks)
                   then 1 else 0)"
    by (simp add: na_def)
  have d2: "drop n2 (drop (n1 + na) toks) = dropWhile is_Dash (drop (n1 + na) toks)"
    by (simp add: n2_def dropWhile_eq_drop)
  have "option_calls (drop k toks) = option_calls (drop n2 (drop (n1 + na) toks))"
    by (simp add: k add.commute add.left_commute)
  also have "\<dots> = option_calls (drop na (drop n1 toks))"
    by (simp only: d2 option_calls_dropWhile_Dash) (simp add: add.commute)
  also have "\<dots> = option_calls (drop n1 toks)"
    unfolding na' by (rule option_calls_drop_one_arg)
  also have "\<dots> = option_calls toks"
    by (simp only: d1 option_calls_dropWhile_Dash)
  finally have "option_calls (drop k toks) = option_calls toks" .
  with take_action_taken [OF t] show ?thesis by simp
qed

lemma filter_calls_append:
  assumes "taken st' @ ys = taken st @ zs"
    and "\<forall>p \<in> set zs. fst p \<noteq> Texfile" and "\<forall>p \<in> set ys. fst p \<noteq> Texfile"
  shows "filter (\<lambda>p. fst p \<noteq> Texfile) (taken st') @ ys
           = filter (\<lambda>p. fst p \<noteq> Texfile) (taken st) @ zs"
proof -
  from assms(1) have "filter (\<lambda>p. fst p \<noteq> Texfile) (taken st' @ ys)
                        = filter (\<lambda>p. fst p \<noteq> Texfile) (taken st @ zs)"
    by simp
  with assms(2,3) show ?thesis
    by (simp add: filter_id_conv [THEN iffD2])
qed

lemma option_calls_not_Texfile:
  "list_all wf_tok toks \<Longrightarrow> \<forall>p \<in> set (option_calls toks). fst p \<noteq> Texfile"
  by (induction toks rule: option_calls.induct) (auto dest: option_action)

lemma wf_drop: "list_all wf_tok toks \<Longrightarrow> list_all wf_tok (drop n toks)"
  by (auto simp: list_all_iff dest: in_set_dropD)

lemma wf_dropWhile: "list_all wf_tok toks \<Longrightarrow> list_all wf_tok (dropWhile P toks)"
  by (auto simp: list_all_iff dest: set_dropWhileD)

lemma parse_loop_calls:
  "consistent st \<Longrightarrow> list_all wf_tok toks \<Longrightarrow> parse_loop st toks = Inr st' \<Longrightarrow>
   filter (\<lambda>p. fst p \<noteq> Texfile) (taken st')
     = filter (\<lambda>p. fst p \<noteq> Texfile) (taken st) @ option_calls toks"
proof (induction "length toks" arbitrary: st toks rule: less_induct)
  case less
  note wf = less.prems(2)
  show ?case
  proof (cases "list_ex is_Opt toks")
    case False
    with less.prems(3) obtain st1 k where
      cp: "consume_positionals st toks = Inr (st1, k)"
      and st': "st' = st1\<lparr>extras := extras st1 @ map arg_string_of (drop k toks)\<rparr>"
      by (subst (asm) parse_loop.simps) (auto split: sum.splits)
    from consume_positionals_calls [OF less.prems(1) cp] st' option_calls_none [OF False]
    show ?thesis by simp
  next
    case True
    then obtain tok toks' where toks: "toks = tok # toks'"
      by (cases toks) auto
    show ?thesis
    proof (cases "is_Opt tok")
      case True
      then obtain s t where tok: "tok = Opt s t"
        by (cases tok) auto
      with \<open>list_ex is_Opt toks\<close> toks less.prems(3) obtain st1 n where
        co: "consume_optional st s t toks' = Inr (st1, n)"
        and pl: "parse_loop st1 (drop n toks') = Inr st'"
        by (subst (asm) parse_loop.simps) (auto split: sum.splits)
      from less.prems(1) co have c1: "consistent st1"
        by (rule consume_optional_consistent)
      from wf toks have wf': "list_all wf_tok (drop n toks')"
        by (simp add: wf_drop)
      have "length (drop n toks') < length toks"
        using toks by simp
      from less.hyps [OF this c1 wf' pl]
      have IH: "filter (\<lambda>p. fst p \<noteq> Texfile) (taken st')
                  = filter (\<lambda>p. fst p \<noteq> Texfile) (taken st1) @ option_calls (drop n toks')" .
      from wf toks tok have "wf_tok (Opt s t)" by simp
      from consume_optional_calls [OF co this]
      have "taken st1 @ option_calls (drop n toks') = taken st @ option_calls (Opt s t # toks')"
        by simp
      from filter_calls_append [OF this] option_calls_not_Texfile [OF wf]
        option_calls_not_Texfile [OF wf'] toks tok IH
      show ?thesis by simp
    next
      case False
      with \<open>list_ex is_Opt toks\<close> toks less.prems(3) obtain st1 k where
        cp: "consume_positionals st toks = Inr (st1, k)"
        by (subst (asm) parse_loop.simps) (cases tok; auto split: sum.splits)
      from less.prems(1) cp have c1: "consistent st1"
        by (rule consume_positionals_consistent)
      note cpc = consume_positionals_calls [OF less.prems(1) cp]
      show ?thesis
      proof (cases "k > 0")
        case True
        with \<open>list_ex is_Opt toks\<close> toks less.prems(3) cp False
        have pl: "parse_loop st1 (drop k toks) = Inr st'"
          by (subst (asm) parse_loop.simps) (cases tok; auto split: sum.splits)
        have "length (drop k toks) < length toks"
          using toks True by simp
        from less.hyps [OF this c1 wf_drop [OF wf] pl] cpc show ?thesis
          by simp
      next
        case k0: False
        let ?st2 = "st1\<lparr>extras := extras st1 @
                      map arg_string_of (takeWhile (\<lambda>t. \<not> is_Opt t) toks)\<rparr>"
        from \<open>list_ex is_Opt toks\<close> obtain s t following where
          dw: "dropWhile (\<lambda>t. \<not> is_Opt t) toks = Opt s t # following"
          by (rule first_option)
        with \<open>list_ex is_Opt toks\<close> toks less.prems(3) cp False k0 obtain st3 n where
          co: "consume_optional ?st2 s t following = Inr (st3, n)"
          and pl: "parse_loop st3 (drop n following) = Inr st'"
          by (subst (asm) parse_loop.simps) (cases tok; auto split: sum.splits)
        from c1 have c2: "consistent ?st2" by simp
        from c2 co have c3: "consistent st3"
          by (rule consume_optional_consistent)
        from wf_dropWhile [OF wf, of "\<lambda>t. \<not> is_Opt t"] dw
        have wfo: "wf_tok (Opt s t)" and wff: "list_all wf_tok following"
          by simp_all
        have wf': "list_all wf_tok (drop n following)"
          using wff by (rule wf_drop)
        have "length (drop n following) < length toks"
          using dropWhile_shorter [OF dw] by simp
        from less.hyps [OF this c3 wf' pl]
        have IH: "filter (\<lambda>p. fst p \<noteq> Texfile) (taken st')
                    = filter (\<lambda>p. fst p \<noteq> Texfile) (taken st3) @ option_calls (drop n following)" .
        from consume_optional_calls [OF co wfo]
        have "taken st3 @ option_calls (drop n following)
                = taken ?st2 @ option_calls (Opt s t # following)"
          by simp
        from filter_calls_append [OF this]
          option_calls_not_Texfile [of "Opt s t # following"] wfo wff
          option_calls_not_Texfile [OF wf']
        have "filter (\<lambda>p. fst p \<noteq> Texfile) (taken st3) @ option_calls (drop n following)
                = filter (\<lambda>p. fst p \<noteq> Texfile) (taken st1) @ option_calls (Opt s t # following)"
          by simp
        moreover have "option_calls (Opt s t # following) = option_calls toks"
          using option_calls_dropWhile_not_Opt [of toks] dw by simp
        ultimately show ?thesis
          using IH cpc by simp
      qed
    qed
  qed
qed

lemma table_entry:
  "(os, a) \<in> set option_string_actions \<Longrightarrow> map_of option_string_actions os = Some a"
  by (rule map_of_is_SomeI) (simp_all add: option_string_actions_def)

lemma get_option_tuples_wf:
  "t \<in> set (get_option_tuples s) \<Longrightarrow> wf_tok (Opt s t)"
  by (auto simp: get_option_tuples_def Let_def table_entry split: if_splits prod.splits)

lemma parse_optional_wf:
  assumes "parse_optional s = Inr (Some t)"
  shows "wf_tok (Opt s t)"
proof -
  have one: "wf_tok (Opt s t)" if "get_option_tuples s = [t]"
    using get_option_tuples_wf [of t s] that by simp
  from assms one show ?thesis
    by (auto simp: parse_optional_def split: if_splits option.splits prod.splits list.splits)
qed

lemma classify_wf: "classify argv = Inr toks \<Longrightarrow> list_all wf_tok toks"
proof (induction argv arbitrary: toks)
  case Nil
  then show ?case by simp
next
  case (Cons s ss)
  show ?case
  proof (cases "s = ''--''")
    case True
    with Cons.prems show ?thesis
      by (auto simp: list_all_iff)
  next
    case False
    with Cons.prems Cons.IH show ?thesis
      by (auto split: sum.splits option.splits dest: parse_optional_wf)
  qed
qed

lemma parse_known_args_calls:
  assumes "parse_known_args argv = Inr st"
  shows "\<exists>toks. classify argv = Inr toks
           \<and> filter (\<lambda>p. fst p \<noteq> Texfile) (taken st) = option_calls toks"
proof -
  from assms obtain toks where c: "classify argv = Inr toks"
    and p: "parse_loop \<lparr>nsp = initial_namespace, positionals = [Texfile], extras = [],
                        taken = []\<rparr> toks = Inr st"
    by (auto simp: parse_known_args_def split: sum.splits)
  from parse_loop_calls [OF initial_consistent classify_wf [OF c] p] c show ?thesis
    by simp
qed

section \<open>What \<^verbatim>\<open>main\<close> passes to \<^verbatim>\<open>collect\<close> and how it ends\<close>

lemma parse_args_known:
  "parse_args argv = Inr args \<longleftrightarrow>
     (\<exists>st. parse_known_args argv = Inr st \<and> extras st = [] \<and> args = nsp st)"
  by (auto simp: parse_args_def split: sum.splits)

lemma main_called:
  assumes "main cwd collect argv = Inr r"
  shows "\<exists>args c. parse_args argv = Inr args \<and> called r = Some c
           \<and> c_texfile c = texfile args
           \<and> c_flatten c = (\<not> noflatten args)
           \<and> c_latexmk_path c = latexmk args
           \<and> c_engine c = engine args
           \<and> c_strip_comments c = (\<not> no_strip_comments args)
           \<and> c_include_packages c = include_packages args
           \<and> c_output_dir c =
               (if truthy (output' args) then str_of (output' args)
                else if truthy (texfile args) then
                  path_join (dirname (abspath cwd (str_of (texfile args))))
                    (if noflatten args then ''output_no_flatten'' else ''output'')
                else if noflatten args then ''output_no_flatten'' else ''output'')"
  using assms
  by (auto simp: main_def Let_def split: sum.splits collect_outcome.splits exn.splits)

lemma main_outcome:
  assumes "main cwd collect argv = Inr r" and "called r = Some c"
  shows "(case collect c of
            Returns \<Rightarrow> status r = 0 \<and> stderr r = []
          | Raises x \<Rightarrow> status r = 1 \<and> stderr r = [report x])"
  using assms
  by (auto simp: main_def Let_def split: sum.splits collect_outcome.splits exn.splits)

lemma main_Inl:
  "main cwd collect argv = Inl e \<Longrightarrow> parse_args argv = Inl e"
  by (auto simp: main_def Let_def split: sum.splits collect_outcome.splits exn.splits)

lemma main_runs:
  assumes "parse_args argv = Inr args"
  shows "\<exists>r c. main cwd collect argv = Inr r \<and> called r = Some c"
proof (cases "main cwd collect argv")
  case (Inl e)
  with assms main_Inl [OF Inl] show ?thesis by simp
next
  case (Inr r)
  with main_called [OF Inr] show ?thesis by auto
qed

lemma supplied_options:
  "a \<noteq> Texfile \<Longrightarrow> supplied a (filter (\<lambda>p. fst p \<noteq> Texfile) tk) = supplied a tk"
proof -
  assume "a \<noteq> Texfile"
  then have "filter (\<lambda>p. fst p = a) (filter (\<lambda>p. fst p \<noteq> Texfile) tk)
               = filter (\<lambda>p. fst p = a) tk"
    by (induction tk) auto
  then show ?thesis by (simp add: supplied_def)
qed

lemma occurs_options:
  "a \<noteq> Texfile \<Longrightarrow>
   (a \<in> fst ` set (filter (\<lambda>p. fst p \<noteq> Texfile) tk)) = (a \<in> fst ` set tk)"
  by (induction tk) auto

lemma calls_options:
  "a \<noteq> Texfile \<Longrightarrow>
   filter (\<lambda>p. fst p = a) (filter (\<lambda>p. fst p \<noteq> Texfile) tk) = filter (\<lambda>p. fst p = a) tk"
  by (induction tk) auto

lemma only_empty_values:
  "list_all fits tk \<Longrightarrow>
   map snd (filter (\<lambda>p. fst p = IncludePackages) tk)
     = replicate (length (filter (\<lambda>p. fst p = IncludePackages) tk)) []"
  by (induction tk) (auto simp: fits_def)

text \<open>
  The arguments of \<^verbatim>\<open>collect\<close> in terms of the command line: of the option calls
  that the classified argument strings show.
\<close>

lemma main_called_calls:
  assumes "classify argv = Inr toks" and "main cwd collect argv = Inr r"
    and "called r = Some c"
  shows "c_flatten c = (Noflatten \<notin> fst ` set (option_calls toks))
       \<and> c_strip_comments c = (NoStripComments \<notin> fst ` set (option_calls toks))
       \<and> c_latexmk_path c = last (''latexmk'' # supplied Latexmk (option_calls toks))
       \<and> c_engine c = last (''pdflatex'' # supplied Engine (option_calls toks))
       \<and> c_engine c \<in> set engine_choices
       \<and> c_include_packages c =
           (if IncludePackages \<in> fst ` set (option_calls toks)
            then Some (replicate
                   (length (filter (\<lambda>p. fst p = IncludePackages) (option_calls toks))) [])
            else None)"
proof -
  from main_called [OF assms(2)] assms(3) obtain st where
    pk: "parse_known_args argv = Inr st"
    and fl: "c_flatten c = (\<not> noflatten (nsp st))"
    and sc: "c_strip_comments c = (\<not> no_strip_comments (nsp st))"
    and lm: "c_latexmk_path c = latexmk (nsp st)"
    and en: "c_engine c = engine (nsp st)"
    and ip: "c_include_packages c = include_packages (nsp st)"
    by (auto simp: parse_args_known)
  from parse_known_args_calls [OF pk] assms(1)
  have calls: "option_calls toks = filter (\<lambda>p. fst p \<noteq> Texfile) (taken st)"
    by auto
  from parse_known_args_consistent [OF pk] have c: "consistent st" .
  then have "list_all fits (taken st)"
    by (simp add: consistent_def)
  then have ev: "map snd (filter (\<lambda>p. fst p = IncludePackages) (taken st))
                  = replicate (length (filter (\<lambda>p. fst p = IncludePackages) (taken st))) []"
    by (rule only_empty_values)
  have s1: "supplied Latexmk (option_calls toks) = supplied Latexmk (taken st)"
    unfolding calls by (rule supplied_options) simp
  have s2: "supplied Engine (option_calls toks) = supplied Engine (taken st)"
    unfolding calls by (rule supplied_options) simp
  have o1: "(Noflatten \<in> fst ` set (option_calls toks)) = (Noflatten \<in> fst ` set (taken st))"
    unfolding calls by (rule occurs_options) simp
  have o2: "(NoStripComments \<in> fst ` set (option_calls toks))
              = (NoStripComments \<in> fst ` set (taken st))"
    unfolding calls by (rule occurs_options) simp
  have o3: "(IncludePackages \<in> fst ` set (option_calls toks))
              = (IncludePackages \<in> fst ` set (taken st))"
    unfolding calls by (rule occurs_options) simp
  have f1: "filter (\<lambda>p. fst p = IncludePackages) (option_calls toks)
              = filter (\<lambda>p. fst p = IncludePackages) (taken st)"
    unfolding calls by (rule calls_options) simp
  from c fl sc lm en ip ev show ?thesis
    unfolding s1 s2 o1 o2 o3 f1
    by (simp add: consistent_def del: last.simps)
qed

section \<open>Properties of the command line\<close>

text \<open>Concrete command lines, evaluated.\<close>

lemma parse_paper:
  "parse_args [''paper.tex''] =
     Inr \<lparr>texfile = Some ''paper.tex'', output' = None, noflatten = False,
          latexmk = ''latexmk'', engine = ''pdflatex'', no_strip_comments = False,
          include_packages = None\<rparr>"
  by code_simp

lemma classify_paper: "classify [''paper.tex''] = Inr [Arg ''paper.tex'']"
  by code_simp

lemma parse_nothing:
  "parse_args [] =
     Inr \<lparr>texfile = None, output' = None, noflatten = False,
          latexmk = ''latexmk'', engine = ''pdflatex'', no_strip_comments = False,
          include_packages = None\<rparr>"
  by code_simp

text \<open>
  C2. When \<^verbatim>\<open>collect\<close> raises \<^verbatim>\<open>LatexmkException\<close>, \<^verbatim>\<open>main\<close> ends the process with a
  non-zero exit status and prints the message in a form of its own
  (\<^verbatim>\<open>Latexmk error: ...\<close>), which no other exception gets; any other exception also
  ends the process with a non-zero status, printed as \<^verbatim>\<open>Error: ...\<close>.
\<close>

theorem build_tool_error_surfaced_separately:
  assumes "main cwd collect argv = Inr r" and "called r = Some c"
  shows "(collect c = Raises (LatexmkException e) \<longrightarrow>
            process_status (main cwd collect argv) \<noteq> 0
            \<and> stderr r = [''Latexmk error: '' @ e]
            \<and> (\<forall>m. stderr r \<noteq> [''Error: '' @ m]))
       \<and> (collect c = Raises (Exception e) \<longrightarrow>
            process_status (main cwd collect argv) \<noteq> 0
            \<and> stderr r = [''Error: '' @ e]
            \<and> (\<forall>m. stderr r \<noteq> [''Latexmk error: '' @ m]))"
  using main_outcome [OF assms] assms(1)
  by (auto simp: process_status_def)

theorem build_tool_error_surfaced_separately_witness:
  "\<exists>r c r' c'.
     main ''/home/u'' latexmk_fails [''paper.tex''] = Inr r \<and> called r = Some c
     \<and> latexmk_fails c = Raises (LatexmkException ''latexmk not found'')
     \<and> process_status (main ''/home/u'' latexmk_fails [''paper.tex'']) \<noteq> 0
     \<and> stderr r = [''Latexmk error: latexmk not found'']
     \<and> main ''/home/u'' packaging_fails [''paper.tex''] = Inr r' \<and> called r' = Some c'
     \<and> packaging_fails c' = Raises (Exception ''cannot read file'')
     \<and> process_status (main ''/home/u'' packaging_fails [''paper.tex'']) \<noteq> 0
     \<and> stderr r' = [''Error: cannot read file'']"
proof -
  from main_runs [OF parse_paper] obtain r c where
    m: "main ''/home/u'' latexmk_fails [''paper.tex''] = Inr r" and c: "called r = Some c"
    by blast
  from main_runs [OF parse_paper] obtain r' c' where
    m': "main ''/home/u'' packaging_fails [''paper.tex''] = Inr r'" and c': "called r' = Some c'"
    by blast
  from build_tool_error_surfaced_separately [OF m c, of "''latexmk not found''"]
    build_tool_error_surfaced_separately [OF m' c', of "''cannot read file''"]
    m c m' c'
  show ?thesis
    by (simp add: latexmk_fails_def packaging_fails_def)
qed







text \<open>
  C9. When the option \<^verbatim>\<open>--include-packages\<close> does not occur on the command line,
  \<^verbatim>\<open>collect\<close> is called with \<^verbatim>\<open>include_packages=None\<close>, not with an empty list.
\<close>

theorem include_packages_None_when_absent:
  assumes "classify argv = Inr toks" and "main cwd collect argv = Inr r"
    and "called r = Some c" and "IncludePackages \<notin> fst ` set (option_calls toks)"
  shows "c_include_packages c = None"
  using main_called_calls [OF assms(1-3)] assms(4)
  by simp

theorem include_packages_None_when_absent_witness:
  "\<exists>toks r c.
     classify [''paper.tex''] = Inr toks
     \<and> main ''/home/u'' always_returns [''paper.tex''] = Inr r \<and> called r = Some c
     \<and> IncludePackages \<notin> fst ` set (option_calls toks)
     \<and> c_include_packages c = None \<and> c_include_packages c \<noteq> Some []"
proof -
  from main_runs [OF parse_paper] obtain r c where
    m: "main ''/home/u'' always_returns [''paper.tex''] = Inr r" and c: "called r = Some c"
    by blast
  have a: "IncludePackages \<notin> fst ` set (option_calls [Arg ''paper.tex''])"
    by simp
  from include_packages_None_when_absent [OF classify_paper m c a]
  have "c_include_packages c = None" and "c_include_packages c \<noteq> Some []"
    by simp_all
  with classify_paper m c a show ?thesis
    by blast
qed

text \<open>
  C10. \<^verbatim>\<open>collect\<close> receives \<^verbatim>\<open>flatten=True\<close> exactly when the option
  \<^verbatim>\<open>--noflatten\<close> does not occur on the command line, and \<^verbatim>\<open>strip_comments=True\<close>
  exactly when \<^verbatim>\<open>--no-strip-comments\<close> does not occur: both are on by default. (An
  option occurs where \<^verbatim>\<open>argparse\<close> reads an argument string as that option, an
  abbreviation such as \<^verbatim>\<open>--nof\<close> included.)
\<close>

theorem flatten_and_strip_follow_switches:
  assumes "classify argv = Inr toks" and "main cwd collect argv = Inr r"
    and "called r = Some c"
  shows "c_flatten c = (Noflatten \<notin> fst ` set (option_calls toks))
       \<and> c_strip_comments c = (NoStripComments \<notin> fst ` set (option_calls toks))"
  using main_called_calls [OF assms]
  by simp

lemma classify_noflatten:
  "classify [''paper.tex'', ''--noflatten''] =
     Inr [Arg ''paper.tex'',
          Opt ''--noflatten'' (Option_tuple (Some Noflatten) ''--noflatten'' None None)]"
  by code_simp

lemma parse_noflatten:
  "parse_args [''paper.tex'', ''--noflatten''] =
     Inr \<lparr>texfile = Some ''paper.tex'', output' = None, noflatten = True,
          latexmk = ''latexmk'', engine = ''pdflatex'', no_strip_comments = False,
          include_packages = None\<rparr>"
  by code_simp

theorem flatten_and_strip_follow_switches_witness:
  "\<exists>toks r c toks' r' c'.
     classify [''paper.tex'', ''--noflatten''] = Inr toks
     \<and> main ''/home/u'' always_returns [''paper.tex'', ''--noflatten''] = Inr r
     \<and> called r = Some c \<and> \<not> c_flatten c \<and> c_strip_comments c
     \<and> classify [''paper.tex''] = Inr toks'
     \<and> main ''/home/u'' always_returns [''paper.tex''] = Inr r'
     \<and> called r' = Some c' \<and> c_flatten c' \<and> c_strip_comments c'"
proof -
  from main_runs [OF parse_noflatten] obtain r c where
    m: "main ''/home/u'' always_returns [''paper.tex'', ''--noflatten''] = Inr r"
    and c: "called r = Some c"
    by blast
  from main_runs [OF parse_paper] obtain r' c' where
    m': "main ''/home/u'' always_returns [''paper.tex''] = Inr r'" and c': "called r' = Some c'"
    by blast
  from flatten_and_strip_follow_switches [OF classify_noflatten m c]
  have "\<not> c_flatten c" and "c_strip_comments c"
    by simp_all
  moreover from flatten_and_strip_follow_switches [OF classify_paper m' c']
  have "c_flatten c'" and "c_strip_comments c'"
    by simp_all
  ultimately show ?thesis
    using classify_noflatten classify_paper m c m' c' by blast
qed

text \<open>
  C1 (what the code does instead). \<^verbatim>\<open>AppendList\<close> registers with \<^verbatim>\<open>nargs=0\<close>, so
  \<^verbatim>\<open>--include-packages\<close> consumes no string and each occurrence appends the empty list
  \<^verbatim>\<open>values\<close>. On \<^verbatim>\<open>--include-packages extra\<close> the path \<^verbatim>\<open>extra\<close> becomes the positional
  \<^verbatim>\<open>texfile\<close> and \<^verbatim>\<open>collect\<close> gets \<^verbatim>\<open>include_packages=[[]]\<close>; after a main document,
  \<^verbatim>\<open>paper.tex --include-packages extra\<close>, the path is an unrecognized argument and
  the process exits with status 2 before \<^verbatim>\<open>collect\<close> is called, as it does for
  \<^verbatim>\<open>--include-packages=extra\<close>.
\<close>

theorem include_packages_drops_the_path:
  "map_sum id called (main ''/home/u'' always_returns [''--include-packages'', ''extra'']) =
     Inr (Some \<lparr>c_texfile = Some ''extra'', c_output_dir = ''/home/u/output'',
                c_flatten = True, c_latexmk_path = ''latexmk'', c_engine = ''pdflatex'',
                c_strip_comments = True, c_include_packages = Some [[]]\<rparr>)
   \<and> main ''/home/u'' always_returns [''paper.tex'', ''--include-packages'', ''extra''] =
     Inl (Error_exit (Unrecognized_arguments [''extra'']))
   \<and> main ''/home/u'' always_returns [''paper.tex'', ''--include-packages=extra''] =
     Inl (Error_exit (Ignored_explicit_argument IncludePackages ''extra''))"
  by code_simp

text \<open>
  For every command line, the list that \<^verbatim>\<open>collect\<close> gets holds one empty list for
  each occurrence of \<^verbatim>\<open>--include-packages\<close> and no path.
\<close>

lemma include_packages_only_empty_lists:
  assumes "classify argv = Inr toks" and "main cwd collect argv = Inr r"
    and "called r = Some c"
  shows "c_include_packages c =
           (if IncludePackages \<in> fst ` set (option_calls toks)
            then Some (replicate
                   (length (filter (\<lambda>p. fst p = IncludePackages) (option_calls toks))) [])
            else None)"
  using main_called_calls [OF assms]
  by simp

text \<open>
  C8, as stated, fails for the empty string as \<^verbatim>\<open>texfile\<close>: the argument is
  supplied and \<^verbatim>\<open>--output\<close> is not, yet \<^verbatim>\<open>elif texfile:\<close> is false for it and
  the output directory is the relative \<^verbatim>\<open>output\<close>, not \<^verbatim>\<open>output\<close> under the
  directory of the absolute path of the argument.
\<close>

theorem output_dir_of_empty_texfile_counterexample:
  "parse_args [''''] =
     Inr \<lparr>texfile = Some '''', output' = None, noflatten = False, latexmk = ''latexmk'',
          engine = ''pdflatex'', no_strip_comments = False, include_packages = None\<rparr>
   \<and> map_sum id called (main ''/home/u/proj'' always_returns ['''']) =
     Inr (Some \<lparr>c_texfile = Some '''', c_output_dir = ''output'', c_flatten = True,
                c_latexmk_path = ''latexmk'', c_engine = ''pdflatex'',
                c_strip_comments = True, c_include_packages = None\<rparr>)
   \<and> path_join (dirname (abspath ''/home/u/proj'' '''')) ''output'' = ''/home/u/output''
   \<and> ''output'' \<noteq> path_join (dirname (abspath ''/home/u/proj'' '''')) ''output''"
  by code_simp

text \<open>
  C8, amended. When \<^verbatim>\<open>--output\<close> is not given: if a non-empty \<^verbatim>\<open>texfile\<close> argument
  is supplied, the output directory passed to \<^verbatim>\<open>collect\<close> is \<^verbatim>\<open>output\<close> (when
  flattening) or \<^verbatim>\<open>output_no_flatten\<close> (when not) joined to the directory of the
  absolute path of \<^verbatim>\<open>texfile\<close>; if no \<^verbatim>\<open>texfile\<close> is supplied, or the empty string
  is, it is the relative path \<^verbatim>\<open>output\<close> or \<^verbatim>\<open>output_no_flatten\<close>.
\<close>

theorem default_output_dir:
  assumes "parse_args argv = Inr args" and "output' args = None"
    and "main cwd collect argv = Inr r" and "called r = Some c"
  shows "(\<forall>t. texfile args = Some t \<and> t \<noteq> [] \<longrightarrow>
            c_output_dir c =
              path_join (dirname (abspath cwd t))
                (if c_flatten c then ''output'' else ''output_no_flatten''))
       \<and> (texfile args = None \<or> texfile args = Some [] \<longrightarrow>
            c_output_dir c = (if c_flatten c then ''output'' else ''output_no_flatten''))"
  using main_called [OF assms(3)] assms(1,2,4)
  by auto

lemma parse_sub_paper:
  "parse_args [''sub/paper.tex'', ''--noflatten''] =
     Inr \<lparr>texfile = Some ''sub/paper.tex'', output' = None, noflatten = True,
          latexmk = ''latexmk'', engine = ''pdflatex'', no_strip_comments = False,
          include_packages = None\<rparr>"
  by code_simp

lemma sub_paper_dir:
  "path_join (dirname (abspath ''/home/u/proj'' ''sub/paper.tex'')) ''output_no_flatten''
     = ''/home/u/proj/sub/output_no_flatten''"
  by code_simp

theorem default_output_dir_witness:
  "\<exists>r c r' c'.
     main ''/home/u/proj'' always_returns [''sub/paper.tex'', ''--noflatten''] = Inr r
     \<and> called r = Some c \<and> c_output_dir c = ''/home/u/proj/sub/output_no_flatten''
     \<and> main ''/home/u/proj'' always_returns [] = Inr r'
     \<and> called r' = Some c' \<and> c_output_dir c' = ''output''"
proof -
  from main_runs [OF parse_sub_paper] obtain r c where
    m: "main ''/home/u/proj'' always_returns [''sub/paper.tex'', ''--noflatten''] = Inr r"
    and c: "called r = Some c"
    by blast
  from main_runs [OF parse_nothing] obtain r' c' where
    m': "main ''/home/u/proj'' always_returns [] = Inr r'" and c': "called r' = Some c'"
    by blast
  from main_called [OF m] c parse_sub_paper have f: "\<not> c_flatten c" by simp
  from main_called [OF m'] c' parse_nothing have f': "c_flatten c'" by simp
  from default_output_dir [OF parse_sub_paper _ m c] default_output_dir [OF parse_nothing _ m' c']
    m c m' c' f f' sub_paper_dir
  show ?thesis by simp
qed

section \<open>The comment stripper: idempotence and verbatim regions\<close>

lemma no_prefix_in_comment:
  "k \<noteq> [] \<Longrightarrow> newline \<notin> set k \<Longrightarrow> \<not> prefix k (strip_from Comment s)"
  by (induction s) (auto simp: prefix_Cons neq_Nil_conv)

lemma prefix_strip_from:
  "m \<noteq> Comment \<Longrightarrow> newline \<notin> set k \<Longrightarrow> percent \<notin> set k \<Longrightarrow>
   prefix k (strip_from m s) = prefix k s"
proof (induction s arbitrary: k m)
  case Nil
  then show ?case by simp
next
  case (Cons c cs)
  show ?case
  proof (cases k)
    case Nil
    then show ?thesis by simp
  next
    case k: (Cons a k')
    show ?thesis
    proof (cases "keeps m c")
      case True
      with Cons.prems(1) have "next_mode m (c # cs) \<noteq> Comment"
        by (cases m) (auto split: option.splits)
      with Cons.IH [of "next_mode m (c # cs)" k'] Cons.prems k True show ?thesis
        by simp
    next
      case False
      with Cons.prems(1) have m: "m = Normal" and c: "c = percent"
        by (cases m; simp)+
      with Cons.prems k no_prefix_in_comment [of k cs] show ?thesis
        by auto
    qed
  qed
qed

lemma marker_chars:
  assumes "e \<in> set verbatim_envs"
  shows "newline \<notin> set e" and "percent \<notin> set e" and "backslash \<notin> set e"
  using assms by (auto simp: verbatim_envs_def newline_def percent_def backslash_def)

lemma prefix_begin_marker_strip:
  assumes "e \<in> set verbatim_envs" and "m \<noteq> Comment"
  shows "prefix (begin_marker e) (c # strip_from m s) = prefix (begin_marker e) (c # s)"
  using marker_chars [OF assms(1)] prefix_strip_from [OF assms(2), of "''begin{'' @ e @ ''}''" s]
  by (simp add: begin_marker_def newline_def percent_def)

lemma prefix_end_marker_strip:
  assumes "e \<in> set verbatim_envs" and "m \<noteq> Comment"
  shows "prefix (end_marker e) (c # strip_from m s) = prefix (end_marker e) (c # s)"
  using marker_chars [OF assms(1)] prefix_strip_from [OF assms(2), of "''end{'' @ e @ ''}''" s]
  by (simp add: end_marker_def newline_def percent_def)

lemma opens_strip:
  assumes "m \<noteq> Comment"
  shows "opens (c # strip_from m s) = opens (c # s)"
  unfolding opens_def
  by (rule find_cong) (simp_all add: prefix_begin_marker_strip [OF _ assms])

lemma opens_env: "opens s = Some e \<Longrightarrow> e \<in> set verbatim_envs"
  by (auto simp: opens_def find_Some_iff)

lemma known_next_mode: "known m \<Longrightarrow> known (next_mode m s)"
  by (cases "(m, s)" rule: next_mode.cases) (auto split: option.splits dest: opens_env)

lemma strip_from_idem:
  "known m \<Longrightarrow> strip_from (settle m) (strip_from m s) = strip_from m s"
proof (induction s arbitrary: m)
  case Nil
  then show ?case by simp
next
  case (Cons c cs)
  define m' where "m' = next_mode m (c # cs)"
  have k': "known m'"
    unfolding m'_def using Cons.prems by (rule known_next_mode)
  note IH = Cons.IH [OF k']
  have step: "strip_from m (c # cs) = (if keeps m c then [c] else []) @ strip_from m' cs"
    by (simp add: m'_def)
  show ?case
  proof (cases m)
    case Normal
    show ?thesis
    proof (cases "c = percent")
      case True
      with Normal have "m' = Comment" by (simp add: m'_def)
      with True Normal IH step show ?thesis by simp
    next
      case False
      with Normal have ne: "m' \<noteq> Comment"
        by (auto simp: m'_def split: option.splits)
      then have s: "settle m' = m'" by (cases m') auto
      have o: "opens (c # strip_from m' cs) = opens (c # cs)"
        by (rule opens_strip [OF ne])
      have "next_mode Normal (c # strip_from m' cs) = next_mode Normal (c # cs)"
        by (simp add: opens_strip [OF ne])
      with Normal have "next_mode Normal (c # strip_from m' cs) = m'"
        by (simp only: m'_def)
      with False Normal IH s step show ?thesis by simp
    qed
  next
    case Escaped
    then have "m' = Normal" by (simp add: m'_def)
    with Escaped IH step show ?thesis by simp
  next
    case Comment
    show ?thesis
    proof (cases "c = newline")
      case True
      with Comment have "m' = Normal" by (simp add: m'_def)
      with True Comment IH step show ?thesis
        by (simp add: percent_def newline_def backslash_def)
    next
      case False
      with Comment have "m' = Comment" by (simp add: m'_def)
      with False Comment IH step show ?thesis by simp
    qed
  next
    case (Verbatim e)
    with Cons.prems have e: "e \<in> set verbatim_envs" by simp
    from Verbatim have ne: "m' \<noteq> Comment" by (simp add: m'_def)
    then have s: "settle m' = m'" by (cases m') auto
    have p: "prefix (end_marker e) (c # strip_from m' cs) = prefix (end_marker e) (c # cs)"
      by (rule prefix_end_marker_strip [OF e ne])
    have "next_mode (Verbatim e) (c # strip_from m' cs) = next_mode (Verbatim e) (c # cs)"
      by (simp add: prefix_end_marker_strip [OF e ne])
    with Verbatim have "next_mode (Verbatim e) (c # strip_from m' cs) = m'"
      by (simp only: m'_def)
    with Verbatim IH s step show ?thesis by simp
  qed
qed

lemma strip_idempotent: "strip (strip s) = strip s"
  using strip_from_idem [of Normal s] by (simp add: strip_def)

lemma plain_passthrough:
  "percent \<notin> set xs \<Longrightarrow> backslash \<notin> set xs \<Longrightarrow>
   strip_from Normal (xs @ ys) = xs @ strip_from Normal ys"
  by (induction xs) auto

lemma end_marker_Cons: "end_marker e = backslash # ''end{'' @ e @ ''}''"
  by (simp add: end_marker_def)

lemma begin_marker_Cons: "begin_marker e = backslash # ''begin{'' @ e @ ''}''"
  by (simp add: begin_marker_def)

lemma verbatim_plain_passthrough:
  "backslash \<notin> set xs \<Longrightarrow>
   strip_from (Verbatim e) (xs @ ys) = xs @ strip_from (Verbatim e) ys"
  by (induction xs) (auto simp: end_marker_Cons)

lemma prefix_beyond:
  "backslash \<notin> set k \<Longrightarrow> prefix k (cs @ backslash # r) = prefix k cs"
proof (induction cs arbitrary: k)
  case Nil
  then show ?case by (cases k) auto
next
  case (Cons c cs)
  then show ?case by (cases k) auto
qed

lemma end_marker_beyond:
  assumes "e \<in> set verbatim_envs"
  shows "prefix (end_marker e) (c # cs @ backslash # r) = prefix (end_marker e) (c # cs)"
  using marker_chars(3) [OF assms] prefix_beyond [of "''end{'' @ e @ ''}''" cs r]
  by (simp add: end_marker_Cons backslash_def)

lemma begin_marker_beyond:
  assumes "e \<in> set verbatim_envs"
  shows "prefix (begin_marker e) (c # cs @ backslash # r) = prefix (begin_marker e) (c # cs)"
  using marker_chars(3) [OF assms] prefix_beyond [of "''begin{'' @ e @ ''}''" cs r]
  by (simp add: begin_marker_Cons backslash_def)

lemma opens_beyond: "opens (c # cs @ backslash # r) = opens (c # cs)"
  unfolding opens_def
  by (rule find_cong) (simp_all add: begin_marker_beyond)

lemma next_mode_beyond:
  "known m \<Longrightarrow> next_mode m (c # cs @ backslash # r) = next_mode m (c # cs)"
  by (cases m) (simp_all add: opens_beyond end_marker_beyond)

lemma strip_from_append:
  "known m \<Longrightarrow>
   strip_from m (pre @ backslash # r)
     = strip_from m pre @ strip_from (mode_after m pre) (backslash # r)"
proof (induction pre arbitrary: m)
  case Nil
  then show ?case by simp
next
  case (Cons c cs)
  from Cons.prems have "known (next_mode m (c # cs))"
    by (rule known_next_mode)
  from Cons.IH [OF this] Cons.prems show ?case
    by (simp add: next_mode_beyond)
qed

lemma verbatim_body_passthrough:
  assumes "e \<in> set verbatim_envs"
  shows "\<not> sublist (end_marker e) body \<Longrightarrow>
         strip_from (Verbatim e) (body @ end_marker e @ rest)
           = body @ strip_from (Verbatim e) (end_marker e @ rest)"
proof (induction body)
  case Nil
  then show ?case by simp
next
  case (Cons c cs)
  from Cons.prems have np: "\<not> prefix (end_marker e) (c # cs)"
    and ns: "\<not> sublist (end_marker e) cs"
    by (simp_all add: sublist_Cons_right)
  have "prefix (end_marker e) (c # cs @ end_marker e @ rest) = prefix (end_marker e) (c # cs)"
    using end_marker_beyond [OF assms, of c cs "''end{'' @ e @ ''}'' @ rest"]
    by (simp add: end_marker_Cons)
  with np Cons.IH [OF ns] show ?case by simp
qed

lemma verbatim_end:
  assumes "e \<in> set verbatim_envs"
  shows "strip_from (Verbatim e) (end_marker e @ rest) = end_marker e @ strip_from Normal rest"
proof -
  have "strip_from (Verbatim e) (end_marker e @ rest)
          = backslash # strip_from Normal ((''end{'' @ e @ ''}'') @ rest)"
    by (simp add: end_marker_Cons)
  also have "strip_from Normal ((''end{'' @ e @ ''}'') @ rest)
          = (''end{'' @ e @ ''}'') @ strip_from Normal rest"
    using marker_chars [OF assms]
    by (intro plain_passthrough) (simp_all add: percent_def backslash_def)
  finally show ?thesis by (simp add: end_marker_Cons)
qed

lemma opens_begin_marker:
  assumes "e \<in> set verbatim_envs"
  shows "opens (begin_marker e @ rest) = Some e"
  using assms by (auto simp: opens_def verbatim_envs_def begin_marker_def)

lemma verbatim_begin:
  assumes "e \<in> set verbatim_envs"
  shows "strip_from Normal (begin_marker e @ rest) = begin_marker e @ strip_from (Verbatim e) rest"
proof -
  have "strip_from Normal (begin_marker e @ rest)
          = backslash # strip_from (Verbatim e) ((''begin{'' @ e @ ''}'') @ rest)"
    using opens_begin_marker [OF assms, of rest]
    by (simp add: begin_marker_Cons percent_def backslash_def)
  also have "strip_from (Verbatim e) ((''begin{'' @ e @ ''}'') @ rest)
          = (''begin{'' @ e @ ''}'') @ strip_from (Verbatim e) rest"
    using marker_chars [OF assms]
    by (intro verbatim_plain_passthrough) (simp add: backslash_def)
  finally show ?thesis by (simp add: begin_marker_Cons)
qed

lemma verbatim_region_kept:
  assumes "e \<in> set verbatim_envs" and "mode_after Normal pre = Normal"
    and "\<not> sublist (end_marker e) body"
  shows "strip (pre @ begin_marker e @ body @ end_marker e @ rest)
           = strip pre @ begin_marker e @ body @ end_marker e @ strip rest"
proof -
  have "strip_from Normal (pre @ begin_marker e @ body @ end_marker e @ rest)
          = strip_from Normal pre
            @ strip_from Normal (begin_marker e @ body @ end_marker e @ rest)"
    using strip_from_append [of Normal pre "''begin{'' @ e @ ''}'' @ body @ end_marker e @ rest"]
      assms(2)
    by (simp add: begin_marker_Cons)
  also have "strip_from Normal (begin_marker e @ body @ end_marker e @ rest)
          = begin_marker e @ body @ end_marker e @ strip_from Normal rest"
    by (simp add: verbatim_begin [OF assms(1)] verbatim_body_passthrough [OF assms(1,3)]
          verbatim_end [OF assms(1)])
  finally show ?thesis by (simp add: strip_def)
qed

section \<open>The planner: fresh names and relative paths\<close>

lemma candidates_distinct: "distinct (candidates anc p n)"
proof -
  have "inj_on (\<lambda>k. base_name p @ suffix_token anc p @ replicate k CHR ''_'') A" for A
    by (rule inj_onI) (auto dest: arg_cong [where f = length])
  then show ?thesis
    by (simp add: candidates_def distinct_map)
qed

lemma disambiguate_fresh: "disambiguate anc avoid p \<notin> set avoid"
proof (cases "find (\<lambda>n. n \<notin> set avoid) (candidates anc p (Suc (length avoid)))")
  case None
  then have "set (candidates anc p (Suc (length avoid))) \<subseteq> set avoid"
    by (auto simp: find_None_iff)
  then have "card (set (candidates anc p (Suc (length avoid)))) \<le> card (set avoid)"
    by (simp add: card_mono)
  moreover have "card (set (candidates anc p (Suc (length avoid))))
                   = length (candidates anc p (Suc (length avoid)))"
    by (rule distinct_card [OF candidates_distinct])
  moreover have "length (candidates anc p (Suc (length avoid))) = Suc (length avoid)"
    by (simp add: candidates_def)
  moreover have "card (set avoid) \<le> length avoid"
    by (rule card_length)
  ultimately show ?thesis by simp
next
  case (Some n)
  then have "n \<notin> set avoid"
    by (auto simp: find_Some_iff)
  with Some show ?thesis
    by (simp add: disambiguate_def)
qed

lemma plan_flat_sources: "map fst (plan_flat anc reserved used ps) = ps"
  by (induction ps arbitrary: used) (simp_all add: Let_def)

lemma plan_flat_names_fresh:
  "distinct (map snd (plan_flat anc reserved used ps))
   \<and> (\<forall>d \<in> set (map snd (plan_flat anc reserved used ps)). \<forall>n \<in> set used. d \<noteq> [n])"
proof (induction ps arbitrary: used)
  case Nil
  show ?case by simp
next
  case (Cons p ps)
  define name where
    "name = (if base_name p \<in> set used then disambiguate anc (reserved @ used) p
             else base_name p)"
  have fresh: "name \<notin> set used"
    using disambiguate_fresh [of anc "reserved @ used" p]
    by (auto simp: name_def)
  have step: "plan_flat anc reserved used (p # ps)
                = (p, [name]) # plan_flat anc reserved (name # used) ps"
    by (simp add: name_def Let_def)
  from Cons.IH [of "name # used"] fresh show ?case
    unfolding step by auto
qed

lemma plan_flat_first_keeps_name:
  assumes "base_name ` set ps \<subseteq> set reserved" and "i < length ps"
  shows "(snd (plan_flat anc reserved used ps ! i) = [base_name (ps ! i)])
           = (base_name (ps ! i) \<notin> set used \<union> base_name ` set (take i ps))"
  using assms
proof (induction ps arbitrary: used i)
  case Nil
  then show ?case by simp
next
  case (Cons p ps)
  define name where
    "name = (if base_name p \<in> set used then disambiguate anc (reserved @ used) p
             else base_name p)"
  have step: "plan_flat anc reserved used (p # ps)
                = (p, [name]) # plan_flat anc reserved (name # used) ps"
    by (simp add: name_def Let_def)
  have not_reserved: "name \<notin> set reserved" if "base_name p \<in> set used"
    using that disambiguate_fresh [of anc "reserved @ used" p]
    by (simp add: name_def)
  show ?case
  proof (cases i)
    case 0
    from Cons.prems(1) have "base_name p \<in> set reserved" by simp
    with not_reserved 0 show ?thesis
      unfolding step by (auto simp: name_def)
  next
    case (Suc j)
    with Cons.prems have j: "j < length ps" and r: "base_name ` set ps \<subseteq> set reserved"
      by simp_all
    from r j have b: "base_name (ps ! j) \<in> set reserved"
      by (auto simp: subset_iff)
    have "(base_name (ps ! j) \<in> set (name # used))
            = (base_name (ps ! j) \<in> set used \<or> base_name (ps ! j) = base_name p)"
    proof (cases "base_name p \<in> set used")
      case True
      with not_reserved b show ?thesis by auto
    next
      case False
      then show ?thesis by (auto simp: name_def)
    qed
    with Cons.IH [OF r j, of "name # used"] Suc show ?thesis
      unfolding step by auto
  qed
qed

lemma common_ancestor_prefix:
  assumes "p \<in> set srcs"
  shows "prefix (common_ancestor srcs) p"
proof -
  have fold_prefix: "prefix (fold (\<lambda>q anc. longest_common_prefix anc (butlast q)) qs a) a"
    for qs and a :: path
  proof (induction qs arbitrary: a)
    case Nil
    show ?case by simp
  next
    case (Cons q qs)
    from Cons.IH [of "longest_common_prefix a (butlast q)"]
    show ?case
      using longest_common_prefix_prefix1 [of a "butlast q"] prefix_order.order_trans
      by auto
  qed
  have fold_member: "prefix (fold (\<lambda>q anc. longest_common_prefix anc (butlast q)) qs a) (butlast q)"
    if "q \<in> set qs" for qs q and a :: path
    using that
  proof (induction qs arbitrary: a)
    case Nil
    then show ?case by simp
  next
    case (Cons q' qs)
    show ?case
    proof (cases "q = q'")
      case True
      have "prefix (fold (\<lambda>q anc. longest_common_prefix anc (butlast q)) qs
                      (longest_common_prefix a (butlast q')))
              (longest_common_prefix a (butlast q'))"
        by (rule fold_prefix)
      with True show ?thesis
        using longest_common_prefix_prefix2 [of a "butlast q'"] prefix_order.order_trans
        by auto
    next
      case False
      with Cons.prems have "q \<in> set qs" by simp
      from Cons.IH [OF this] show ?thesis by simp
    qed
  qed
  have butlast_prefix: "prefix (butlast q) q" for q :: path
    by (simp add: prefixeq_butlast)
  obtain p0 ps where srcs: "srcs = p0 # ps"
    using assms by (cases srcs) auto
  have "prefix (common_ancestor srcs) (butlast p)"
  proof (cases "p = p0")
    case True
    with srcs fold_prefix [of ps "butlast p0"] show ?thesis
      by (simp add: common_ancestor_def)
  next
    case False
    with assms srcs have "p \<in> set ps" by simp
    from fold_member [OF this, of "butlast p0"] srcs show ?thesis
      by (simp add: common_ancestor_def)
  qed
  with butlast_prefix [of p] show ?thesis
    using prefix_order.order_trans by blast
qed

lemma relative_to_inj:
  assumes "prefix anc p" and "prefix anc q" and "relative_to anc p = relative_to anc q"
  shows "p = q"
  using assms by (auto simp: relative_to_def prefix_def)

lemma plan_keep_distinct:
  assumes "distinct srcs"
  shows "distinct (map snd (plan srcs False))"
proof -
  have "inj_on (relative_to (common_ancestor srcs)) (set srcs)"
    by (rule inj_onI) (auto intro: relative_to_inj common_ancestor_prefix)
  with assms show ?thesis
    by (simp add: plan_def distinct_map comp_def)
qed

section \<open>Properties of the comment stripper, the planner and the main document\<close>

lemma strip_spec_examples:
  "strip (''a %comment'' @ [newline] @ ''b'') = ''a '' @ [newline] @ ''b''
   \<and> strip (''a '' @ [backslash] @ ''%not-comment'') = ''a '' @ [backslash] @ ''%not-comment''"
  by code_simp

text \<open>
  C6. The comment stripper is idempotent, \<^verbatim>\<open>strip(strip(text)) == strip(text)\<close> for every
  text, and it never alters a verbatim-delimited region: a region that begins where
  the scanner is in normal mode, from the begin marker of a verbatim-style environment
  to the first end marker of that environment, appears in the output byte for byte,
  and the text before and after it is stripped as if the region were not there.
\<close>

theorem comment_stripper_idempotent_and_keeps_verbatim:
  "strip (strip s) = strip s
   \<and> (e \<in> set verbatim_envs \<and> mode_after Normal pre = Normal
        \<and> \<not> sublist (end_marker e) body \<longrightarrow>
      strip (pre @ begin_marker e @ body @ end_marker e @ rest)
        = strip pre @ begin_marker e @ body @ end_marker e @ strip rest)"
  using strip_idempotent [of s] verbatim_region_kept [of e pre body rest]
  by blast

theorem comment_stripper_idempotent_and_keeps_verbatim_witness:
  "''verbatim'' \<in> set verbatim_envs
   \<and> mode_after Normal (''x %c'' @ [newline]) = Normal
   \<and> \<not> sublist (end_marker ''verbatim'') ''50% of a%b''
   \<and> strip ((''x %c'' @ [newline]) @ begin_marker ''verbatim'' @ ''50% of a%b''
              @ end_marker ''verbatim'' @ '' y %d'')
       = (''x '' @ [newline]) @ begin_marker ''verbatim'' @ ''50% of a%b''
              @ end_marker ''verbatim'' @ '' y ''
   \<and> strip (strip (''x %c'' @ [newline] @ ''y%d'')) = strip (''x %c'' @ [newline] @ ''y%d'')"
proof -
  have e: "''verbatim'' \<in> set verbatim_envs"
    by (simp add: verbatim_envs_def)
  have m: "mode_after Normal (''x %c'' @ [newline]) = Normal"
    by code_simp
  have b: "\<not> sublist (end_marker ''verbatim'') ''50% of a%b''"
    by code_simp
  have p: "strip (''x %c'' @ [newline]) = ''x '' @ [newline]" and r: "strip '' y %d'' = '' y ''"
    by code_simp+
  from comment_stripper_idempotent_and_keeps_verbatim
         [of "''x %c'' @ [newline] @ ''y%d''" "''verbatim''" "''x %c'' @ [newline]"
             "''50% of a%b''" "'' y %d''"]
    e m b p r
  show ?thesis by simp
qed

text \<open>
  C7. For sources that are pairwise distinct, the plan gives every source one
  destination and the destinations are pairwise distinct, with and without
  flattening. With flattening a source keeps its unmodified base filename exactly
  when no source discovered before it has the same base filename: the first
  discovered keeps the name, every later one gets a different name. The plan is a
  function of the sources in discovery order, so it is the same on every run.
\<close>

theorem planner_destinations_distinct:
  assumes "distinct srcs"
  shows "map fst (plan srcs flatten) = srcs
       \<and> distinct (map snd (plan srcs flatten))
       \<and> (\<forall>i<length srcs.
            (snd (plan srcs True ! i) = [base_name (srcs ! i)])
              = (base_name (srcs ! i) \<notin> base_name ` set (take i srcs)))"
proof -
  have sources: "map fst (plan srcs flatten) = srcs"
    by (simp add: plan_def plan_flat_sources comp_def)
  have dests: "distinct (map snd (plan srcs flatten))"
  proof (cases flatten)
    case True
    with plan_flat_names_fresh [of "common_ancestor srcs" "map base_name srcs" "[]" srcs]
    show ?thesis by (simp add: plan_def)
  next
    case False
    with plan_keep_distinct [OF assms] show ?thesis by simp
  qed
  have first: "(snd (plan srcs True ! i) = [base_name (srcs ! i)])
                 = (base_name (srcs ! i) \<notin> base_name ` set (take i srcs))"
    if "i < length srcs" for i
    using plan_flat_first_keeps_name
            [of srcs "map base_name srcs" i "common_ancestor srcs" "[]"] that
    by (simp add: plan_def)
  from sources dests first show ?thesis by blast
qed

theorem planner_destinations_distinct_witness:
  "distinct [[''home'', ''p'', ''paper.tex''], [''home'', ''p'', ''a'', ''fig.png''],
             [''home'', ''p'', ''b'', ''fig.png'']]
   \<and> plan [[''home'', ''p'', ''paper.tex''], [''home'', ''p'', ''a'', ''fig.png''],
            [''home'', ''p'', ''b'', ''fig.png'']] True
       = [([''home'', ''p'', ''paper.tex''], [''paper.tex'']),
          ([''home'', ''p'', ''a'', ''fig.png''], [''fig.png'']),
          ([''home'', ''p'', ''b'', ''fig.png''], [''fig.png_b''])]
   \<and> distinct (map snd (plan [[''home'', ''p'', ''paper.tex''],
            [''home'', ''p'', ''a'', ''fig.png''], [''home'', ''p'', ''b'', ''fig.png'']] True))
   \<and> distinct (map snd (plan [[''home'', ''p'', ''paper.tex''],
            [''home'', ''p'', ''a'', ''fig.png''], [''home'', ''p'', ''b'', ''fig.png'']] False))"
proof -
  let ?srcs = "[[''home'', ''p'', ''paper.tex''], [''home'', ''p'', ''a'', ''fig.png''],
                [''home'', ''p'', ''b'', ''fig.png'']]"
  have d: "distinct ?srcs" by simp
  have p: "plan ?srcs True
       = [([''home'', ''p'', ''paper.tex''], [''paper.tex'']),
          ([''home'', ''p'', ''a'', ''fig.png''], [''fig.png'']),
          ([''home'', ''p'', ''b'', ''fig.png''], [''fig.png_b''])]"
    by code_simp
  from planner_destinations_distinct [OF d, of True]
    planner_destinations_distinct [OF d, of False] d p
  show ?thesis by blast
qed

text \<open>
  C3. When the command line names no main document and the current directory holds
  more than one \<^verbatim>\<open>.tex\<close> file, \<^verbatim>\<open>collect\<close> raises the ambiguity error before any
  packaging: the error does not depend on the packaging that would follow, no file is
  written, and \<^verbatim>\<open>main\<close> prints the error and exits with status 1.
\<close>

theorem ambiguous_main_document_raised_first:
  assumes "parse_args argv = Inr args" and "texfile args = None"
    and "1 < length (filter is_tex listing)"
    and "main cwd (\<lambda>call. fst (collect_spec describe listing package call)) argv = Inr r"
    and "called r = Some c"
  shows "collect_spec describe listing package c
           = (Raises (Exception (describe (Ambiguous_main_document (filter is_tex listing)))), [])
       \<and> status r = 1
       \<and> stderr r = [''Error: '' @ describe (Ambiguous_main_document (filter is_tex listing))]"
proof -
  from main_called [OF assms(4)] assms(1,2,5) have t: "c_texfile c = None"
    by auto
  from assms(3) obtain t1 t2 ts where f: "filter is_tex listing = t1 # t2 # ts"
    by (cases "filter is_tex listing" rule: list.exhaust; simp)
       (metis length_0_conv less_numeral_extra(3) list.exhaust)
  from t f have c: "collect_spec describe listing package c
           = (Raises (Exception (describe (Ambiguous_main_document (filter is_tex listing)))), [])"
    by (simp add: collect_spec_def main_document_def)
  from main_outcome [OF assms(4,5)] c show ?thesis
    by simp
qed

theorem ambiguous_main_document_raised_first_witness:
  "\<exists>r c.
     main ''/home/u'' (\<lambda>call. fst (collect_spec describe_error
         [''a.tex'', ''notes.txt'', ''b.tex''] package_one call)) [] = Inr r
     \<and> called r = Some c
     \<and> 1 < length (filter is_tex [''a.tex'', ''notes.txt'', ''b.tex''])
     \<and> collect_spec describe_error [''a.tex'', ''notes.txt'', ''b.tex''] package_one c
         = (Raises (Exception ''ambiguous main document''), [])
     \<and> status r = 1 \<and> stderr r = [''Error: ambiguous main document'']"
proof -
  let ?collect = "\<lambda>call. fst (collect_spec describe_error
         [''a.tex'', ''notes.txt'', ''b.tex''] package_one call)"
  from main_runs [OF parse_nothing] obtain r c where
    m: "main ''/home/u'' ?collect [] = Inr r" and c: "called r = Some c"
    by blast
  have f: "filter is_tex [''a.tex'', ''notes.txt'', ''b.tex''] = [''a.tex'', ''b.tex'']"
    by code_simp
  then have l: "1 < length (filter is_tex [''a.tex'', ''notes.txt'', ''b.tex''])"
    by simp
  from ambiguous_main_document_raised_first [OF parse_nothing _ l m c] m c l f
  show ?thesis by simp
qed

end
